theory Spec2Isabelle
  imports Main "HOL-Library.Word" "HOL-Library.List_Lexorder"
begin

section \<open>Common data: errors, paths, expressions\<close>

text \<open>
  Go functions of the engine return \<open>(value, error)\<close>. An error is a value of the
  datatype below: \<open>NotFoundError\<close> is the catalog error recognised by
  \<open>errs.IsNotFoundError\<close>, \<open>ErrKeyNotFound\<close> is \<open>kv.ErrKeyNotFound\<close>, and
  \<open>ErrMsg\<close> is an error made by \<open>errors.New\<close> or \<open>fmt.Errorf\<close> with its message.
\<close>

datatype error = NotFoundError string | ErrKeyNotFound | ErrMsg string

fun IsNotFoundError :: "error \<Rightarrow> bool" where
  "IsNotFoundError (NotFoundError n) = True"
| "IsNotFoundError e = False"

text \<open>
  \<open>object.Path\<close> is a slice of fragments, each a field name or an array index.
  \<open>expr.Expr\<close> is kept by its textual form, which is what a stream prints.
\<close>

datatype PathFragment = FieldName string | ArrayIndex int

type_synonym Path = "PathFragment list"

type_synonym Expr = string

text \<open>\<open>object.NewPath(name)\<close>: the path made of the single field name.\<close>

definition NewPath :: "string \<Rightarrow> Path" where
  "NewPath name = [FieldName name]"

text \<open>\<open>Path.IsEqual\<close>: same length and the same fragment at every position.\<close>

definition IsEqual :: "Path \<Rightarrow> Path \<Rightarrow> bool" where
  "IsEqual p other = (p = other)"

section \<open>Streams of operators\<close>

text \<open>
  The operators of the spec's catalogue. \<open>OnConflict None\<close> is \<open>OnConflict(nil)\<close>; the
  alternative stream of \<open>OnConflict\<close> is the list of its operators.
\<close>

datatype Operator =
    SeqScan string
  | Emit "Expr list"
  | Filter Expr
  | Project "Expr list"
  | Take int
  | Skip int
  | TempTreeSort Expr
  | PathSet Path Expr
  | PathUnset string
  | PathsRename "string list"
  | TableValidate string
  | TableInsert string
  | TableReplace string
  | TableDelete string
  | IndexInsert string
  | IndexDelete string
  | IndexValidate string
  | OnConflict "Operator list option"
  | Discard

type_synonym Stream = "Operator list"

text \<open>\<open>stream.New(op)\<close> starts a stream and \<open>s.Pipe(op)\<close> appends an operator to it.\<close>

definition New :: "Operator \<Rightarrow> Stream" where
  "New op = [op]"

definition Pipe :: "Stream \<Rightarrow> Operator \<Rightarrow> Stream" where
  "Pipe s op = s @ [op]"

section \<open>The catalog\<close>

text \<open>
  Modelled from the spec: the catalog (table, index and sequence metadata), an external
  collaborator that the statements consult through \<open>ctx.Tx.Catalog\<close>. It is a record of
  three association lists keyed by name. A lookup of a missing name is a \<open>NotFound\<close> error
  (spec, section 7: "Catalog errors: NotFound for tables/indexes/sequences"), and
  \<open>ListIndexes\<close> returns the indexes of a table in the catalog's own, fixed order.
\<close>

record PrimaryKey =
  Paths :: "Path list"

record TableInfo =
  PrimaryKey :: "PrimaryKey option"
  RowidSequenceName :: string

record Table =
  Info :: TableInfo

record Owner =
  TableName :: string

record IndexInfo =
  idx_Owner :: Owner
  Unique :: bool

record SequenceInfo =
  Name :: string
  seq_Owner :: Owner


record Catalog =
  tables :: "(string \<times> TableInfo) list"
  indexes :: "(string \<times> IndexInfo) list"
  sequences :: "(string \<times> SequenceInfo) list"

definition GetTableInfo :: "Catalog \<Rightarrow> string \<Rightarrow> error + TableInfo" where
  "GetTableInfo c tableName =
     (case map_of (tables c) tableName of
        None \<Rightarrow> Inl (NotFoundError tableName)
      | Some ti \<Rightarrow> Inr ti)"

definition GetTable :: "Catalog \<Rightarrow> string \<Rightarrow> error + Table" where
  "GetTable c tableName =
     (case GetTableInfo c tableName of
        Inl e \<Rightarrow> Inl e
      | Inr ti \<Rightarrow> Inr \<lparr>Info = ti\<rparr>)"

definition GetPrimaryKey :: "TableInfo \<Rightarrow> PrimaryKey option" where
  "GetPrimaryKey ti = PrimaryKey ti"

definition ListIndexes :: "Catalog \<Rightarrow> string \<Rightarrow> string list" where
  "ListIndexes c tableName =
     map fst (filter (\<lambda>(n, info). TableName (idx_Owner info) = tableName) (indexes c))"

definition GetIndexInfo :: "Catalog \<Rightarrow> string \<Rightarrow> error + IndexInfo" where
  "GetIndexInfo c indexName =
     (case map_of (indexes c) indexName of
        None \<Rightarrow> Inl (NotFoundError indexName)
      | Some info \<Rightarrow> Inr info)"


text \<open>
  Modelled from the spec: the catalog writer. \<open>DropTable\<close> removes the table and the indexes
  that belong to it, \<open>DropSequence\<close> removes the sequence, whoever owns it; both fail with
  \<open>NotFound\<close> when the name is missing.
\<close>

definition DropTable :: "Catalog \<Rightarrow> string \<Rightarrow> error + Catalog" where
  "DropTable c tableName =
     (case map_of (tables c) tableName of
        None \<Rightarrow> Inl (NotFoundError tableName)
      | Some ti \<Rightarrow>
          Inr (c\<lparr>tables := filter (\<lambda>(n, ti). n \<noteq> tableName) (tables c),
                 indexes := filter (\<lambda>(n, info). TableName (idx_Owner info) \<noteq> tableName) (indexes c)\<rparr>))"

definition DropSequence :: "Catalog \<Rightarrow> string \<Rightarrow> error + Catalog" where
  "DropSequence c sequenceName =
     (case map_of (sequences c) sequenceName of
        None \<Rightarrow> Inl (NotFoundError sequenceName)
      | Some info \<Rightarrow>
          Inr (c\<lparr>sequences := filter (\<lambda>(n, info). n \<noteq> sequenceName) (sequences c)\<rparr>))"

section \<open>UPDATE: \<open>UpdateStmt.Prepare\<close>\<close>

record UpdateSetPair =
  Path :: Path
  E :: Expr

text \<open>
  A Go slice or interface that may be \<open>nil\<close> is an option: \<open>None\<close> is \<open>nil\<close>.
\<close>

record UpdateStmt =
  upd_TableName :: string
  SetPairs :: "UpdateSetPair list option"
  UnsetFields :: "string list option"
  WhereExpr :: "Expr option"

record PreparedStreamStmt =
  Stream :: Stream
  ReadOnly :: bool

text \<open>
  Modelled from the spec: \<open>StreamStmt.Prepare\<close>, the last call of every statement's
  \<open>Prepare\<close>. It wraps the stream it is given, unchanged: "each statement compiles to a
  stream in a fixed order", and the parser tests compare the prepared statement with the
  stream the statement built.
\<close>

definition StreamStmt_Prepare :: "Stream \<Rightarrow> bool \<Rightarrow> error + PreparedStreamStmt" where
  "StreamStmt_Prepare s ro = Inr \<lparr>Stream = s, ReadOnly = ro\<rparr>"

text \<open>The inner loop over \<open>pk.Paths\<close>: is some path of the primary key equal to \<open>path\<close>?\<close>

fun pk_paths_match :: "Path list \<Rightarrow> Path \<Rightarrow> bool" where
  "pk_paths_match [] path = False"
| "pk_paths_match (p # ps) path = (if IsEqual p path then True else pk_paths_match ps path)"

text \<open>
  The loop over \<open>stmt.SetPairs\<close>; its state is the stream and the flag \<open>pkModified\<close>.
\<close>

fun set_pairs_loop ::
  "PrimaryKey option \<Rightarrow> UpdateSetPair list \<Rightarrow> Stream \<times> bool \<Rightarrow> Stream \<times> bool" where
  "set_pairs_loop pk [] (s, pkModified) = (s, pkModified)"
| "set_pairs_loop pk (pair # pairs) (s, pkModified) =
     (let pkModified' =
            (case pk of
               None \<Rightarrow> pkModified
             | Some k \<Rightarrow>
                 if \<not> pkModified then pk_paths_match (Paths k) (Path pair) else pkModified)
      in set_pairs_loop pk pairs (Pipe s (PathSet (Path pair) (E pair)), pkModified'))"

text \<open>The loop over \<open>stmt.UnsetFields\<close>, which returns at the first primary-key path.\<close>

fun unset_fields_loop :: "PrimaryKey option \<Rightarrow> string list \<Rightarrow> Stream \<Rightarrow> error + Stream" where
  "unset_fields_loop pk [] s = Inr s"
| "unset_fields_loop pk (name # names) s =
     (if (case pk of None \<Rightarrow> False | Some k \<Rightarrow> pk_paths_match (Paths k) (NewPath name))
      then Inl (ErrMsg ''cannot unset primary key path'')
      else unset_fields_loop pk names (Pipe s (PathUnset name)))"

fun index_delete_loop :: "string list \<Rightarrow> Stream \<Rightarrow> Stream" where
  "index_delete_loop [] s = s"
| "index_delete_loop (indexName # indexNames) s =
     index_delete_loop indexNames (Pipe s (IndexDelete indexName))"

fun index_insert_loop :: "Catalog \<Rightarrow> string list \<Rightarrow> Stream \<Rightarrow> error + Stream" where
  "index_insert_loop c [] s = Inr s"
| "index_insert_loop c (indexName # indexNames) s =
     (case GetIndexInfo c indexName of
        Inl err \<Rightarrow> Inl err
      | Inr info \<Rightarrow>
          index_insert_loop c indexNames
            (Pipe (if Unique info then Pipe s (IndexValidate indexName) else s)
               (IndexInsert indexName)))"

text \<open>
  \<open>UpdateStmt.Prepare\<close>, in the three parts of its body: the SET or UNSET clause
  (\<open>update_paths\<close>), everything from \<open>table.Validate\<close> on (\<open>update_writes\<close>), and the
  function itself, which looks the table up, starts the stream and runs the two parts.
\<close>

definition update_paths ::
  "PrimaryKey option \<Rightarrow> UpdateStmt \<Rightarrow> Stream \<Rightarrow> error + Stream \<times> bool" where
  "update_paths pk stmt s =
     (case SetPairs stmt of
        Some pairs \<Rightarrow> Inr (set_pairs_loop pk pairs (s, False))
      | None \<Rightarrow>
          (case UnsetFields stmt of
             Some names \<Rightarrow>
               (case unset_fields_loop pk names s of
                  Inl err \<Rightarrow> Inl err
                | Inr s' \<Rightarrow> Inr (s', False))
           | None \<Rightarrow> Inr (s, False)))"

definition update_writes ::
  "Catalog \<Rightarrow> string \<Rightarrow> Stream \<Rightarrow> bool \<Rightarrow> error + PreparedStreamStmt" where
  "update_writes c tableName s pkModified =
     (let s3 = Pipe s (TableValidate tableName);
          indexNames = ListIndexes c tableName;
          s4 = index_delete_loop indexNames s3;
          s5 = (if pkModified
                then Pipe (Pipe s4 (TableDelete tableName)) (TableInsert tableName)
                else Pipe s4 (TableReplace tableName))
      in (case index_insert_loop c indexNames s5 of
            Inl err \<Rightarrow> Inl err
          | Inr s6 \<Rightarrow> StreamStmt_Prepare (Pipe s6 Discard) False))"

definition UpdateStmt_Prepare :: "Catalog \<Rightarrow> UpdateStmt \<Rightarrow> error + PreparedStreamStmt" where
  "UpdateStmt_Prepare c stmt =
     (case GetTableInfo c (upd_TableName stmt) of
        Inl err \<Rightarrow> Inl err
      | Inr ti \<Rightarrow>
         (let pk = GetPrimaryKey ti;
              s0 = New (SeqScan (upd_TableName stmt));
              s1 = (case WhereExpr stmt of None \<Rightarrow> s0 | Some w \<Rightarrow> Pipe s0 (Filter w))
          in (case update_paths pk stmt s1 of
                Inl err \<Rightarrow> Inl err
              | Inr (s2, pkModified) \<Rightarrow> update_writes c (upd_TableName stmt) s2 pkModified)))"

section \<open>DROP TABLE and DROP SEQUENCE: \<open>DropTableStmt.Run\<close>, \<open>DropSequenceStmt.Run\<close>\<close>

text \<open>
  \<open>Run\<close> returns \<open>(res, err)\<close> with an empty result, and writes to the catalog of the
  transaction. The model returns the error (\<open>None\<close> is \<open>nil\<close>) and the catalog as
  \<open>Run\<close> leaves it.
\<close>

record DropTableStmt =
  dt_TableName :: string
  dt_IfExists :: bool

definition DropTableStmt_Run :: "Catalog \<Rightarrow> DropTableStmt \<Rightarrow> error option \<times> Catalog" where
  "DropTableStmt_Run c stmt =
     (if dt_TableName stmt = ''''
      then (Some (ErrMsg ''missing table name''), c)
      else
        (case GetTable c (dt_TableName stmt) of
           Inl err \<Rightarrow>
             (if IsNotFoundError err \<and> dt_IfExists stmt then (None, c) else (Some err, c))
         | Inr tb \<Rightarrow>
             (case DropTable c (dt_TableName stmt) of
                Inl err \<Rightarrow> (Some err, c)
              | Inr c1 \<Rightarrow>
                  (if PrimaryKey (Info tb) = None
                   then (case DropSequence c1 (RowidSequenceName (Info tb)) of
                           Inl err \<Rightarrow> (Some err, c1)
                         | Inr c2 \<Rightarrow> (None, c2))
                   else (None, c1)))))"



section \<open>DELETE and INSERT: the compiled streams\<close>

text \<open>
  Modelled from the spec: \<open>DeleteStmt.Prepare\<close> (the repository has its parser tests only).
  Section 4.4: "DELETE. SeqScan(T), Filter?, TempTreeSort?, Skip?, Take?, TableDelete(T)":
  each optional operator is piped when its clause is present, in this order.
\<close>

record DeleteStmt =
  del_TableName :: string
  del_WhereExpr :: "Expr option"
  OrderBy :: "Expr option"
  OffsetExpr :: "int option"
  LimitExpr :: "int option"

definition DeleteStmt_Prepare :: "DeleteStmt \<Rightarrow> error + PreparedStreamStmt" where
  "DeleteStmt_Prepare stmt =
     (let s0 = New (SeqScan (del_TableName stmt));
          s1 = (case del_WhereExpr stmt of None \<Rightarrow> s0 | Some w \<Rightarrow> Pipe s0 (Filter w));
          s2 = (case OrderBy stmt of None \<Rightarrow> s1 | Some e \<Rightarrow> Pipe s1 (TempTreeSort e));
          s3 = (case OffsetExpr stmt of None \<Rightarrow> s2 | Some n \<Rightarrow> Pipe s2 (Skip n));
          s4 = (case LimitExpr stmt of None \<Rightarrow> s3 | Some n \<Rightarrow> Pipe s3 (Take n));
          s5 = Pipe s4 (TableDelete (del_TableName stmt))
      in StreamStmt_Prepare s5 False)"

text \<open>
  Modelled from the spec: the ON CONFLICT clause of the INSERT parser, on the tokens that
  follow \<open>ON CONFLICT\<close>. Section 6: "ON CONFLICT {DO NOTHING|IGNORE|DO REPLACE|REPLACE}";
  section 4.4: "Other ON CONFLICT kinds are parse errors".
\<close>

datatype Token = DO | NOTHING | IGNORE | REPLACE | RETURNING | IDENT string

datatype OnConflictAction = OnConflictDoNothing | OnConflictDoReplace

fun parseOnConflict :: "Token list \<Rightarrow> error + OnConflictAction \<times> Token list" where
  "parseOnConflict (DO # NOTHING # rest) = Inr (OnConflictDoNothing, rest)"
| "parseOnConflict (IGNORE # rest) = Inr (OnConflictDoNothing, rest)"
| "parseOnConflict (DO # REPLACE # rest) = Inr (OnConflictDoReplace, rest)"
| "parseOnConflict (REPLACE # rest) = Inr (OnConflictDoReplace, rest)"
| "parseOnConflict toks = Inl (ErrMsg ''unknown ON CONFLICT action'')"

text \<open>
  Modelled from the spec: \<open>InsertStmt.Prepare\<close> (the repository has its parser tests only),
  after the six steps of section 4.4. The row source is \<open>Emit(values...)\<close>, or the stream of
  a SELECT (\<open>SeqScan(src)\<close>, then \<open>Project\<close> if it projects); \<open>PathsRename\<close> is piped when
  columns are named and the source is a SELECT; then \<open>TableValidate\<close>, the \<open>OnConflict\<close>
  operator of the clause if there is one, \<open>TableInsert\<close>, the operators of the indexes, and
  \<open>Project\<close> for a RETURNING clause or \<open>Discard\<close> without one. A RETURNING clause that
  is the wildcard alone pipes no operator: in scenario 6 of section 8, as in the parser
  tests, the stream of \<open>INSERT ... RETURNING *\<close> ends at \<open>TableInsert\<close>.
\<close>

definition Wildcard :: Expr where
  "Wildcard = ''*''"

datatype InsertSource = Values "Expr list" | Select string "Expr list option"

record InsertStmt =
  ins_TableName :: string
  Source :: InsertSource
  Fields :: "string list"
  ins_OnConflict :: "OnConflictAction option"
  Returning :: "Expr list"

definition insert_source :: "InsertStmt \<Rightarrow> Stream" where
  "insert_source stmt =
     (case Source stmt of
        Values vs \<Rightarrow> New (Emit vs)
      | Select src proj \<Rightarrow>
          (let s = (case proj of None \<Rightarrow> New (SeqScan src)
                              | Some es \<Rightarrow> Pipe (New (SeqScan src)) (Project es))
           in if Fields stmt \<noteq> [] then Pipe s (PathsRename (Fields stmt)) else s))"

text \<open>Is the operator an \<open>OnConflict\<close>?\<close>

fun is_OnConflict :: "Operator \<Rightarrow> bool" where
  "is_OnConflict (OnConflict alt) = True"
| "is_OnConflict op = False"

definition InsertStmt_Prepare :: "Catalog \<Rightarrow> InsertStmt \<Rightarrow> error + PreparedStreamStmt" where
  "InsertStmt_Prepare c stmt =
     (let s1 = insert_source stmt;
          s2 = Pipe s1 (TableValidate (ins_TableName stmt));
          s3 = (case ins_OnConflict stmt of
                  None \<Rightarrow> s2
                | Some OnConflictDoNothing \<Rightarrow> Pipe s2 (OnConflict None)
                | Some OnConflictDoReplace \<Rightarrow>
                    Pipe s2 (OnConflict (Some (New (TableReplace (ins_TableName stmt))))));
          s4 = Pipe s3 (TableInsert (ins_TableName stmt))
      in (case index_insert_loop c (ListIndexes c (ins_TableName stmt)) s4 of
            Inl err \<Rightarrow> Inl err
          | Inr s5 \<Rightarrow>
              StreamStmt_Prepare
                (if Returning stmt = [] then Pipe s5 Discard
                 else if Returning stmt = [Wildcard] then s5
                 else Pipe s5 (Project (Returning stmt)))
                False))"

section \<open>The ordered key-value store under a tree\<close>

type_synonym byte = "8 word"

type_synonym bytes = "byte list"

text \<open>
  Byte strings are compared as \<open>bytes.Compare\<close> compares them: lexicographically, a proper
  prefix before its extensions. This is the order \<open><\<close> of lists over the linear order of
  bytes.
\<close>

text \<open>\<open>bytes.HasPrefix\<close> and \<open>bytes.TrimPrefix\<close> of the Go standard library.\<close>

definition HasPrefix :: "bytes \<Rightarrow> bytes \<Rightarrow> bool" where
  "HasPrefix s p = (take (length p) s = p)"

definition TrimPrefix :: "bytes \<Rightarrow> bytes \<Rightarrow> bytes" where
  "TrimPrefix s p = (if HasPrefix s p then drop (length p) s else s)"

text \<open>
  Modelled from the spec: the physical key-value store (package \<open>kv\<close> over the byte engine,
  an external collaborator). The store is the list of its entries in ascending key order,
  one entry per key. A put replaces the value of an existing key.
\<close>

type_synonym kv_store = "(bytes \<times> bytes) list"

fun kv_put :: "bytes \<Rightarrow> bytes \<Rightarrow> kv_store \<Rightarrow> kv_store" where
  "kv_put k v [] = [(k, v)]"
| "kv_put k v ((k', v') # es) =
     (if k < k' then (k, v) # (k', v') # es
      else if k = k' then (k, v) # es
      else (k', v') # kv_put k v es)"

definition kv_delete :: "bytes \<Rightarrow> kv_store \<Rightarrow> kv_store" where
  "kv_delete k es = filter (\<lambda>(k', v). k' \<noteq> k) es"

text \<open>
  Modelled from the spec: an iterator of the store with the options \<open>LowerBound\<close>
  (inclusive, \<open>lower\<close>) and \<open>UpperBound\<close> (exclusive, \<open>upper\<close>). It ranges over the
  entries whose key lies in \<open>[lower, upper)\<close>, in key order; \<open>pos\<close> is the index of the current entry and
  the iterator is valid while \<open>pos\<close> is an index of \<open>items\<close>.
\<close>

record Iterator =
  items :: "(bytes \<times> bytes) list"
  pos :: int

definition kv_Iterator :: "kv_store \<Rightarrow> bytes \<Rightarrow> bytes \<Rightarrow> Iterator" where
  "kv_Iterator es lower upper =
     \<lparr>items = filter (\<lambda>(k, v). lower \<le> k \<and> k < upper) es, pos = - 1\<rparr>"

definition it_First :: "Iterator \<Rightarrow> Iterator" where
  "it_First it = it\<lparr>pos := 0\<rparr>"

definition it_Last :: "Iterator \<Rightarrow> Iterator" where
  "it_Last it = it\<lparr>pos := int (length (items it)) - 1\<rparr>"

definition it_Next :: "Iterator \<Rightarrow> Iterator" where
  "it_Next it = it\<lparr>pos := pos it + 1\<rparr>"

definition it_Prev :: "Iterator \<Rightarrow> Iterator" where
  "it_Prev it = it\<lparr>pos := pos it - 1\<rparr>"

definition it_Valid :: "Iterator \<Rightarrow> bool" where
  "it_Valid it = (0 \<le> pos it \<and> pos it < int (length (items it)))"

definition it_Key :: "Iterator \<Rightarrow> bytes" where
  "it_Key it = fst (items it ! nat (pos it))"

definition it_Value :: "Iterator \<Rightarrow> bytes" where
  "it_Value it = snd (items it ! nat (pos it))"

text \<open>
  Modelled from the spec: a namespace id, known by the prefix that \<open>kv.BuildKey\<close> prepends
  to every persisted key of the namespace and by its \<open>UpperBound()\<close>, "the
  lexicographically-first key not in the namespace".
\<close>

record NamespaceID =
  id_prefix :: bytes
  UpperBound :: bytes

definition BuildKey :: "NamespaceID \<Rightarrow> bytes \<Rightarrow> bytes" where
  "BuildKey ns key = id_prefix ns @ key"

text \<open>
  Modelled from the spec: \<open>kv.Namespace\<close>, a tenant of the store; \<open>db\<close> is the store it
  reads and writes. \<open>Get\<close> and \<open>Delete\<close> fail with \<open>ErrKeyNotFound\<close> on an absent key,
  \<open>Truncate\<close> removes every key of the namespace.
\<close>

record Namespace =
  ID :: NamespaceID
  db :: kv_store

definition ns_Put :: "Namespace \<Rightarrow> bytes \<Rightarrow> bytes \<Rightarrow> Namespace" where
  "ns_Put ns key v = ns\<lparr>db := kv_put (BuildKey (ID ns) key) v (db ns)\<rparr>"

definition ns_Get :: "Namespace \<Rightarrow> bytes \<Rightarrow> error + bytes" where
  "ns_Get ns key =
     (case map_of (db ns) (BuildKey (ID ns) key) of
        None \<Rightarrow> Inl ErrKeyNotFound
      | Some v \<Rightarrow> Inr v)"

definition ns_Exists :: "Namespace \<Rightarrow> bytes \<Rightarrow> error + bool" where
  "ns_Exists ns key = Inr (map_of (db ns) (BuildKey (ID ns) key) \<noteq> None)"

definition ns_Delete :: "Namespace \<Rightarrow> bytes \<Rightarrow> error option \<times> Namespace" where
  "ns_Delete ns key =
     (case map_of (db ns) (BuildKey (ID ns) key) of
        None \<Rightarrow> (Some ErrKeyNotFound, ns)
      | Some v \<Rightarrow> (None, ns\<lparr>db := kv_delete (BuildKey (ID ns) key) (db ns)\<rparr>))"

definition ns_Truncate :: "Namespace \<Rightarrow> error option \<times> Namespace" where
  "ns_Truncate ns =
     (None, ns\<lparr>db := filter (\<lambda>(k, v). \<not> HasPrefix k (id_prefix (ID ns))) (db ns)\<rparr>)"

definition ns_Iterator :: "Namespace \<Rightarrow> bytes \<Rightarrow> bytes \<Rightarrow> Iterator" where
  "ns_Iterator ns lower upper = kv_Iterator (db ns) lower upper"

text \<open>
  Modelled from the spec: \<open>kv.TransientStore\<close>, the store of a temporary tree; its
  keys carry no namespace prefix.
\<close>

record TransientStore =
  ts_db :: kv_store

definition ts_Put :: "TransientStore \<Rightarrow> bytes \<Rightarrow> bytes \<Rightarrow> TransientStore" where
  "ts_Put ts key v = ts\<lparr>ts_db := kv_put key v (ts_db ts)\<rparr>"

definition ts_Iterator :: "TransientStore \<Rightarrow> bytes \<Rightarrow> bytes \<Rightarrow> Iterator" where
  "ts_Iterator ts lower upper = kv_Iterator (ts_db ts) lower upper"

section \<open>The tree\<close>

text \<open>
  A call of a tree method returns normally with a value, returns an error, or panics.
\<close>

datatype 'a outcome = Ok 'a | Err error | Panic string

text \<open>
  \<open>tree.Key\<close> is a byte slice. The \<open>Codec\<close> interface is a pair of functions on the
  documents \<open>'d\<close>. A \<open>Tree\<close> has a namespace or a transient store; a \<open>nil\<close> pointer is
  \<open>None\<close>.
\<close>

type_synonym Key = bytes

record 'd Codec =
  Encode :: "'d \<Rightarrow> error + bytes"
  Decode :: "bytes \<Rightarrow> error + 'd"

record 'd Tree =
  Namespace :: "Namespace option"
  TransientStore :: "TransientStore option"
  Codec :: "'d Codec"

definition New_Tree :: "Namespace \<Rightarrow> 'd Codec \<Rightarrow> 'd Tree" where
  "New_Tree ns codec = \<lparr>Namespace = Some ns, TransientStore = None, Codec = codec\<rparr>"

definition NewTransient :: "TransientStore \<Rightarrow> 'd Codec \<Rightarrow> 'd Tree" where
  "NewTransient store codec = \<lparr>Namespace = None, TransientStore = Some store, Codec = codec\<rparr>"

text \<open>
  \<open>Tree.Put\<close>. A \<open>nil\<close> document is stored as the single byte 0. The tree is returned as
  the call leaves it. A method called on the \<open>nil\<close> namespace of a tree that has no
  transient store either dereferences \<open>nil\<close>.
\<close>

definition Put :: "'d Tree \<Rightarrow> Key \<Rightarrow> 'd option \<Rightarrow> 'd outcome \<times> 'd Tree" where
  "Put t key d =
     (case (case d of Some doc \<Rightarrow> Encode (Codec t) doc | None \<Rightarrow> Inr [0]) of
        Inl err \<Rightarrow> (Err err, t)
      | Inr enc \<Rightarrow>
          (case TransientStore t of
             Some ts \<Rightarrow>
               ((case Decode (Codec t) enc of Inl err \<Rightarrow> Err err | Inr doc \<Rightarrow> Ok doc),
                t\<lparr>TransientStore := Some (ts_Put ts key enc)\<rparr>)
           | None \<Rightarrow>
               (case Namespace t of
                  None \<Rightarrow> (Panic ''nil pointer dereference'', t)
                | Some ns \<Rightarrow>
                    ((case Decode (Codec t) enc of Inl err \<Rightarrow> Err err | Inr doc \<Rightarrow> Ok doc),
                     t\<lparr>Namespace := Some (ns_Put ns key enc)\<rparr>))))"

text \<open>
  \<open>Tree.Get\<close> returns a \<open>Document\<close> that decodes lazily: what it holds is the encoded
  value, which is what the model returns.
\<close>

definition Get :: "'d Tree \<Rightarrow> Key \<Rightarrow> bytes outcome" where
  "Get t key =
     (if TransientStore t \<noteq> None then Panic ''Get not implemented on transient tree''
      else
        (case Namespace t of
           None \<Rightarrow> Panic ''nil pointer dereference''
         | Some ns \<Rightarrow> (case ns_Get ns key of Inl err \<Rightarrow> Err err | Inr vv \<Rightarrow> Ok vv)))"

definition Exists :: "'d Tree \<Rightarrow> Key \<Rightarrow> bool outcome" where
  "Exists t key =
     (if TransientStore t \<noteq> None then Panic ''Exists not implemented on transient tree''
      else
        (case Namespace t of
           None \<Rightarrow> Panic ''nil pointer dereference''
         | Some ns \<Rightarrow> (case ns_Exists ns key of Inl err \<Rightarrow> Err err | Inr b \<Rightarrow> Ok b)))"

definition Delete :: "'d Tree \<Rightarrow> Key \<Rightarrow> unit outcome \<times> 'd Tree" where
  "Delete t key =
     (if TransientStore t \<noteq> None then (Panic ''Delete not implemented on transient tree'', t)
      else
        (case Namespace t of
           None \<Rightarrow> (Panic ''nil pointer dereference'', t)
         | Some ns \<Rightarrow>
             (case ns_Delete ns key of
                (Some err, ns') \<Rightarrow> (Err err, t\<lparr>Namespace := Some ns'\<rparr>)
              | (None, ns') \<Rightarrow> (Ok (), t\<lparr>Namespace := Some ns'\<rparr>))))"

definition Truncate :: "'d Tree \<Rightarrow> unit outcome \<times> 'd Tree" where
  "Truncate t =
     (if TransientStore t \<noteq> None then (Panic ''Truncate not implemented on transient tree'', t)
      else
        (case Namespace t of
           None \<Rightarrow> (Panic ''nil pointer dereference'', t)
         | Some ns \<Rightarrow>
             (case ns_Truncate ns of
                (Some err, ns') \<Rightarrow> (Err err, t\<lparr>Namespace := Some ns'\<rparr>)
              | (None, ns') \<Rightarrow> (Ok (), t\<lparr>Namespace := Some ns'\<rparr>))))"

text \<open>The keys that bound an iteration. \<open>buildKey(nil)\<close> is \<open>buildKey\<close> of the empty key.\<close>

definition buildKey :: "'d Tree \<Rightarrow> Key \<Rightarrow> bytes" where
  "buildKey t key =
     (case Namespace t of
        Some ns \<Rightarrow> BuildKey (ID ns) key
      | None \<Rightarrow> key)"

definition buildFirstKey :: "'d Tree \<Rightarrow> bytes" where
  "buildFirstKey t = buildKey t []"

definition buildLastKey :: "'d Tree \<Rightarrow> bytes" where
  "buildLastKey t =
     (case Namespace t of
        Some ns \<Rightarrow> UpperBound (ID ns)
      | None \<Rightarrow> [0xFF])"

text \<open>
  The constant \<open>encoding.ArrayValueDelim\<close> is a parameter of the functions that use it.
\<close>

definition buildStartKeyInclusive :: "'d Tree \<Rightarrow> bytes \<Rightarrow> bytes" where
  "buildStartKeyInclusive t key = buildKey t key"

definition buildStartKeyExclusive :: "byte \<Rightarrow> 'd Tree \<Rightarrow> bytes \<Rightarrow> bytes" where
  "buildStartKeyExclusive ArrayValueDelim t key = buildKey t key @ [ArrayValueDelim, 0xFF]"

definition buildEndKeyInclusive :: "byte \<Rightarrow> 'd Tree \<Rightarrow> bytes \<Rightarrow> bytes" where
  "buildEndKeyInclusive ArrayValueDelim t key = buildKey t key @ [ArrayValueDelim, 0xFF]"

definition buildEndKeyExclusive :: "'d Tree \<Rightarrow> bytes \<Rightarrow> bytes" where
  "buildEndKeyExclusive t key = buildKey t key"

text \<open>A \<open>Range\<close> of keys; a \<open>nil\<close> bound is \<open>None\<close>.\<close>

record Range =
  rng_Min :: "Key option"
  rng_Max :: "Key option"
  Exclusive :: bool

text \<open>
  The loop of \<open>IterateOnRange\<close>: while the iterator is valid, call \<open>fn\<close> on the key without
  the prefix and on the value, stop at its first error, else step forward or backward. The
  callback works on a state \<open>'s\<close> of its own. The loop ends: each step moves \<open>pos\<close> towards
  the end it leaves \<open>items\<close> by.
\<close>

function iterate_loop ::
  "bool \<Rightarrow> bytes \<Rightarrow> (Key \<Rightarrow> bytes \<Rightarrow> 's \<Rightarrow> error + 's) \<Rightarrow> Iterator \<Rightarrow> 's \<Rightarrow> error + 's" where
  "iterate_loop reverse prefix fn it s =
     (if it_Valid it
      then (case fn (TrimPrefix (it_Key it) prefix) (it_Value it) s of
              Inl err \<Rightarrow> Inl err
            | Inr s' \<Rightarrow>
                iterate_loop reverse prefix fn (if \<not> reverse then it_Next it else it_Prev it) s')
      else Inr s)"
  by pat_completeness auto
termination
  by (relation "measure (\<lambda>(reverse, prefix, fn, it, s).
         if reverse then nat (pos it + 1) else nat (int (length (items it)) - pos it))")
     (auto simp: it_Valid_def it_Next_def it_Prev_def)

declare iterate_loop.simps [simp del]

definition IterateOnRange ::
  "byte \<Rightarrow> 'd Tree \<Rightarrow> Range option \<Rightarrow> bool \<Rightarrow> (Key \<Rightarrow> bytes \<Rightarrow> 's \<Rightarrow> error + 's) \<Rightarrow> 's
   \<Rightarrow> 's outcome" where
  "IterateOnRange ArrayValueDelim t rng0 reverse fn s =
     (let rng = (case rng0 of None \<Rightarrow> \<lparr>rng_Min = None, rng_Max = None, Exclusive = False\<rparr>
                            | Some r \<Rightarrow> r);
          start =
            (if \<not> Exclusive rng
             then (case rng_Min rng of None \<Rightarrow> buildFirstKey t
                                     | Some k \<Rightarrow> buildStartKeyInclusive t k)
             else (case rng_Min rng of None \<Rightarrow> buildFirstKey t
                                     | Some k \<Rightarrow> buildStartKeyExclusive ArrayValueDelim t k));
          end =
            (if \<not> Exclusive rng
             then (case rng_Max rng of None \<Rightarrow> buildLastKey t
                                     | Some k \<Rightarrow> buildEndKeyInclusive ArrayValueDelim t k)
             else (case rng_Max rng of None \<Rightarrow> buildLastKey t
                                     | Some k \<Rightarrow> buildEndKeyExclusive t k))
      in (case (case TransientStore t of
                  Some ts \<Rightarrow> Some (ts_Iterator ts start end)
                | None \<Rightarrow> (case Namespace t of
                             Some ns \<Rightarrow> Some (ns_Iterator ns start end)
                           | None \<Rightarrow> None)) of
            None \<Rightarrow> Panic ''nil pointer dereference''
          | Some it \<Rightarrow>
              (case iterate_loop reverse (buildKey t []) fn
                      (if \<not> reverse then it_First it else it_Last it) s of
                 Inl err \<Rightarrow> Err err
               | Inr s' \<Rightarrow> Ok s')))"

text \<open>
  A callback that records its arguments, and the condition on \<open>UpperBound()\<close> that the spec
  gives: of the stored keys, those from the prefix of the namespace up to its upper bound
  carry the prefix.
\<close>

definition collect :: "Key \<Rightarrow> bytes \<Rightarrow> (Key \<times> bytes) list \<Rightarrow> error + (Key \<times> bytes) list" where
  "collect k d acc = Inr (acc @ [(k, d)])"

definition UpperBound_ok :: "Namespace \<Rightarrow> bool" where
  "UpperBound_ok ns =
     (\<forall>(k, v) \<in> set (db ns).
        id_prefix (ID ns) \<le> k \<and> k < UpperBound (ID ns) \<longrightarrow> HasPrefix k (id_prefix (ID ns)))"

section \<open>UPDATE: the prepared stream\<close>

lemma pk_paths_match_iff: "pk_paths_match ps path \<longleftrightarrow> path \<in> set ps"
  by (induction ps) (auto simp: IsEqual_def)

lemma set_pairs_loop_eq:
  "set_pairs_loop pk pairs (s, m) =
     (s @ map (\<lambda>pair. PathSet (Path pair) (E pair)) pairs,
      m \<or> (\<exists>pair \<in> set pairs.
              \<exists>p \<in> set (case pk of Some k \<Rightarrow> Paths k | None \<Rightarrow> []). p = Path pair))"
  by (induction pairs arbitrary: s m)
     (auto simp: Pipe_def pk_paths_match_iff Let_def split: option.splits)

lemma unset_fields_loop_Inr:
  "unset_fields_loop pk names s = Inr s' \<Longrightarrow> s' = s @ map PathUnset names"
proof (induction names arbitrary: s)
  case Nil
  then show ?case by simp
next
  case (Cons name names)
  from Cons.prems have "unset_fields_loop pk names (Pipe s (PathUnset name)) = Inr s'"
    by (simp split: if_splits)
  from Cons.IH [OF this] show ?case by (simp add: Pipe_def)
qed

lemma unset_fields_loop_Inl:
  "pk = Some k \<Longrightarrow> \<exists>name \<in> set names. NewPath name \<in> set (Paths k) \<Longrightarrow>
   unset_fields_loop pk names s = Inl (ErrMsg ''cannot unset primary key path'')"
  by (induction names arbitrary: s) (auto simp: pk_paths_match_iff)

lemma index_delete_loop_eq: "index_delete_loop ns s = s @ map IndexDelete ns"
  by (induction ns arbitrary: s) (auto simp: Pipe_def)

lemma index_insert_loop_Inr:
  "index_insert_loop c ns s = Inr s' \<Longrightarrow>
   s' = s @ concat (map (\<lambda>n. (if (case GetIndexInfo c n of Inr info \<Rightarrow> Unique info | Inl e \<Rightarrow> False)
                               then [IndexValidate n] else []) @ [IndexInsert n]) ns)"
proof (induction ns arbitrary: s)
  case Nil
  then show ?case by simp
next
  case (Cons n ns)
  from Cons.prems obtain info where info: "GetIndexInfo c n = Inr info"
    by (auto split: sum.splits)
  with Cons.prems have "index_insert_loop c ns
      (Pipe (if Unique info then Pipe s (IndexValidate n) else s) (IndexInsert n)) = Inr s'"
    by simp
  from Cons.IH [OF this] info show ?case by (simp add: Pipe_def)
qed

lemma unset_fields_loop_eq:
  "unset_fields_loop pk names s =
     (if \<exists>name \<in> set names. NewPath name \<in> set (case pk of Some k \<Rightarrow> Paths k | None \<Rightarrow> [])
      then Inl (ErrMsg ''cannot unset primary key path'')
      else Inr (s @ map PathUnset names))"
  by (induction names arbitrary: s)
     (auto simp: pk_paths_match_iff Pipe_def split: option.splits)

lemma map_of_fst_in: "n \<in> fst ` set xs \<Longrightarrow> \<exists>v. map_of xs n = Some v"
  by (induction xs) auto

lemma ListIndexes_in_catalog:
  "n \<in> set (ListIndexes c t) \<Longrightarrow> \<exists>info. GetIndexInfo c n = Inr info"
proof -
  assume "n \<in> set (ListIndexes c t)"
  then have "n \<in> fst ` set (indexes c)"
    by (auto simp: ListIndexes_def)
  from map_of_fst_in [OF this] show ?thesis
    by (auto simp: GetIndexInfo_def)
qed

lemma index_insert_loop_total:
  "(\<And>n. n \<in> set ns \<Longrightarrow> \<exists>info. GetIndexInfo c n = Inr info) \<Longrightarrow>
   \<exists>s'. index_insert_loop c ns s = Inr s'"
proof (induction ns arbitrary: s)
  case Nil
  then show ?case by simp
next
  case (Cons n ns)
  from Cons.prems [of n] obtain info where "GetIndexInfo c n = Inr info" by auto
  moreover have "\<exists>s'. index_insert_loop c ns s = Inr s'" for s
    using Cons.prems by (intro Cons.IH) auto
  ultimately show ?case by simp
qed

lemma index_insert_loop_ListIndexes:
  "index_insert_loop c (ListIndexes c t) s =
     Inr (s @ concat (map (\<lambda>n. (if (case GetIndexInfo c n of Inr info \<Rightarrow> Unique info | Inl e \<Rightarrow> False)
                                  then [IndexValidate n] else []) @ [IndexInsert n])
                        (ListIndexes c t)))"
proof -
  obtain s' where s': "index_insert_loop c (ListIndexes c t) s = Inr s'"
    using index_insert_loop_total [of "ListIndexes c t" c s] ListIndexes_in_catalog by blast
  from index_insert_loop_Inr [OF s'] s' show ?thesis by simp
qed

text \<open>
  Claim C3. \<open>UpdateStmt.Prepare\<close> on an UPDATE of table \<open>t\<close> fails only when \<open>t\<close> is not in
  the catalog, or when the statement has no SET clause and one of its UNSET fields is a path
  of the primary key. In every other case it returns a statement, and the stream of that
  statement is exactly: \<open>SeqScan(t)\<close>; \<open>Filter\<close> if and only if there is a WHERE clause; one
  \<open>PathSet\<close> per SET pair, in order (or, without a SET clause, one \<open>PathUnset\<close> per UNSET
  field, in order); \<open>TableValidate(t)\<close>; one \<open>IndexDelete\<close> per index of \<open>t\<close>; then
  \<open>TableDelete(t)\<close>, \<open>TableInsert(t)\<close> if and only if the path of some SET pair is one of the
  paths of the primary key of \<open>t\<close>, and \<open>TableReplace(t)\<close> otherwise; then, for each index of
  \<open>t\<close> in the order of the catalog, \<open>IndexValidate\<close> when the index is unique, followed by
  \<open>IndexInsert\<close>; and \<open>Discard\<close> at the end.
\<close>

theorem UpdateStmt_Prepare_stream:
  fixes c :: Catalog and stmt :: UpdateStmt
  defines "t \<equiv> upd_TableName stmt"
  defines "pairs \<equiv> (case SetPairs stmt of Some ps \<Rightarrow> ps | None \<Rightarrow> [])"
  defines "names \<equiv> (case UnsetFields stmt of Some ns \<Rightarrow> ns | None \<Rightarrow> [])"
  defines "pkPaths \<equiv> (\<lambda>ti. case PrimaryKey ti of Some k \<Rightarrow> Paths k | None \<Rightarrow> [])"
  defines "unique \<equiv> (\<lambda>n. case GetIndexInfo c n of Inr info \<Rightarrow> Unique info | Inl e \<Rightarrow> False)"
  shows "UpdateStmt_Prepare c stmt =
     (case GetTableInfo c t of
        Inl err \<Rightarrow> Inl err
      | Inr ti \<Rightarrow>
          if SetPairs stmt = None \<and> (\<exists>name \<in> set names. NewPath name \<in> set (pkPaths ti))
          then Inl (ErrMsg ''cannot unset primary key path'')
          else Inr \<lparr>Stream =
                 [SeqScan t]
                 @ (case WhereExpr stmt of None \<Rightarrow> [] | Some w \<Rightarrow> [Filter w])
                 @ (case SetPairs stmt of
                      Some ps \<Rightarrow> map (\<lambda>pair. PathSet (Path pair) (E pair)) ps
                    | None \<Rightarrow> map PathUnset names)
                 @ [TableValidate t]
                 @ map IndexDelete (ListIndexes c t)
                 @ (if (\<exists>pair \<in> set pairs. \<exists>p \<in> set (pkPaths ti). p = Path pair)
                    then [TableDelete t, TableInsert t]
                    else [TableReplace t])
                 @ concat (map (\<lambda>n. (if unique n then [IndexValidate n] else []) @ [IndexInsert n])
                             (ListIndexes c t))
                 @ [Discard],
               ReadOnly = False\<rparr>)"
proof (cases "GetTableInfo c t")
  case (Inl err)
  then show ?thesis
    by (simp add: UpdateStmt_Prepare_def t_def)
next
  case (Inr ti)
  define s1 where "s1 = [SeqScan t] @ (case WhereExpr stmt of None \<Rightarrow> [] | Some w \<Rightarrow> [Filter w])"
  have s1: "(case WhereExpr stmt of None \<Rightarrow> New (SeqScan t)
                                  | Some w \<Rightarrow> Pipe (New (SeqScan t)) (Filter w)) = s1"
    by (simp add: s1_def New_def Pipe_def split: option.splits)
  define bad where
    "bad \<longleftrightarrow> SetPairs stmt = None \<and> (\<exists>name \<in> set names. NewPath name \<in> set (pkPaths ti))"
  define ops where "ops = (case SetPairs stmt of
                      Some ps \<Rightarrow> map (\<lambda>pair. PathSet (Path pair) (E pair)) ps
                    | None \<Rightarrow> map PathUnset names)"
  define pkm where "pkm \<longleftrightarrow> (\<exists>pair \<in> set pairs. \<exists>p \<in> set (pkPaths ti). p = Path pair)"
  have paths: "update_paths (GetPrimaryKey ti) stmt s1 =
                 (if bad then Inl (ErrMsg ''cannot unset primary key path'')
                  else Inr (s1 @ ops, pkm))"
    by (auto simp: update_paths_def set_pairs_loop_eq unset_fields_loop_eq GetPrimaryKey_def
          bad_def ops_def pkm_def pairs_def names_def pkPaths_def split: option.splits)
  have writes: "update_writes c t (s1 @ ops) pkm =
      Inr \<lparr>Stream = s1 @ ops @ [TableValidate t] @ map IndexDelete (ListIndexes c t)
                 @ (if pkm then [TableDelete t, TableInsert t] else [TableReplace t])
                 @ concat (map (\<lambda>n. (if unique n then [IndexValidate n] else []) @ [IndexInsert n])
                             (ListIndexes c t))
                 @ [Discard],
           ReadOnly = False\<rparr>"
    by (simp add: update_writes_def Let_def index_delete_loop_eq index_insert_loop_ListIndexes
          Pipe_def StreamStmt_Prepare_def unique_def)
  have "UpdateStmt_Prepare c stmt =
          (if bad then Inl (ErrMsg ''cannot unset primary key path'')
           else update_writes c t (s1 @ ops) pkm)"
    using Inr paths by (simp add: UpdateStmt_Prepare_def Let_def t_def [symmetric] s1)
  with Inr writes show ?thesis
    unfolding bad_def ops_def pkm_def s1_def by simp
qed

text \<open>
  Two statements on a table \<open>t\<close> with the primary key \<open>a\<close>, a unique index and a plain one:
  \<open>UPDATE t SET a = 2, b = 20 WHERE a = 1\<close> and \<open>UPDATE t UNSET b, c\<close>.
\<close>

theorem UpdateStmt_Prepare_stream_witness:
  "UpdateStmt_Prepare
     \<lparr>tables = [(''t'', \<lparr>PrimaryKey = Some \<lparr>Paths = [[FieldName ''a'']]\<rparr>,
                         RowidSequenceName = ''''\<rparr>)],
      indexes = [(''idx_a'', \<lparr>idx_Owner = \<lparr>TableName = ''t''\<rparr>, Unique = True\<rparr>),
                 (''idx_b'', \<lparr>idx_Owner = \<lparr>TableName = ''t''\<rparr>, Unique = False\<rparr>)],
      sequences = []\<rparr>
     \<lparr>upd_TableName = ''t'',
      SetPairs = Some [\<lparr>Path = [FieldName ''a''], E = ''2''\<rparr>,
                       \<lparr>Path = [FieldName ''b''], E = ''20''\<rparr>],
      UnsetFields = None,
      WhereExpr = Some ''a = 1''\<rparr>
   = Inr \<lparr>Stream =
            [SeqScan ''t'', Filter ''a = 1'',
             PathSet [FieldName ''a''] ''2'', PathSet [FieldName ''b''] ''20'',
             TableValidate ''t'', IndexDelete ''idx_a'', IndexDelete ''idx_b'',
             TableDelete ''t'', TableInsert ''t'',
             IndexValidate ''idx_a'', IndexInsert ''idx_a'', IndexInsert ''idx_b'',
             Discard],
          ReadOnly = False\<rparr>
   \<and> UpdateStmt_Prepare
     \<lparr>tables = [(''t'', \<lparr>PrimaryKey = Some \<lparr>Paths = [[FieldName ''a'']]\<rparr>,
                         RowidSequenceName = ''''\<rparr>)],
      indexes = [(''idx_a'', \<lparr>idx_Owner = \<lparr>TableName = ''t''\<rparr>, Unique = True\<rparr>),
                 (''idx_b'', \<lparr>idx_Owner = \<lparr>TableName = ''t''\<rparr>, Unique = False\<rparr>)],
      sequences = []\<rparr>
     \<lparr>upd_TableName = ''t'', SetPairs = None, UnsetFields = Some [''b'', ''c''],
      WhereExpr = None\<rparr>
   = Inr \<lparr>Stream =
            [SeqScan ''t'', PathUnset ''b'', PathUnset ''c'',
             TableValidate ''t'', IndexDelete ''idx_a'', IndexDelete ''idx_b'',
             TableReplace ''t'',
             IndexValidate ''idx_a'', IndexInsert ''idx_a'', IndexInsert ''idx_b'',
             Discard],
          ReadOnly = False\<rparr>"
proof -
  let ?c = "\<lparr>tables = [(''t'', \<lparr>PrimaryKey = Some \<lparr>Paths = [[FieldName ''a'']]\<rparr>,
                         RowidSequenceName = ''''\<rparr>)],
      indexes = [(''idx_a'', \<lparr>idx_Owner = \<lparr>TableName = ''t''\<rparr>, Unique = True\<rparr>),
                 (''idx_b'', \<lparr>idx_Owner = \<lparr>TableName = ''t''\<rparr>, Unique = False\<rparr>)],
      sequences = []\<rparr>"
  let ?set = "\<lparr>upd_TableName = ''t'',
      SetPairs = Some [\<lparr>Path = [FieldName ''a''], E = ''2''\<rparr>,
                       \<lparr>Path = [FieldName ''b''], E = ''20''\<rparr>],
      UnsetFields = None,
      WhereExpr = Some ''a = 1''\<rparr>"
  let ?unset = "\<lparr>upd_TableName = ''t'', SetPairs = None, UnsetFields = Some [''b'', ''c''],
      WhereExpr = None\<rparr>"
  have 1: "UpdateStmt_Prepare ?c ?set = Inr \<lparr>Stream =
            [SeqScan ''t'', Filter ''a = 1'',
             PathSet [FieldName ''a''] ''2'', PathSet [FieldName ''b''] ''20'',
             TableValidate ''t'', IndexDelete ''idx_a'', IndexDelete ''idx_b'',
             TableDelete ''t'', TableInsert ''t'',
             IndexValidate ''idx_a'', IndexInsert ''idx_a'', IndexInsert ''idx_b'',
             Discard],
          ReadOnly = False\<rparr>"
    using UpdateStmt_Prepare_stream [of ?c ?set]
    by (simp add: GetTableInfo_def ListIndexes_def GetIndexInfo_def NewPath_def)
  have 2: "UpdateStmt_Prepare ?c ?unset = Inr \<lparr>Stream =
            [SeqScan ''t'', PathUnset ''b'', PathUnset ''c'',
             TableValidate ''t'', IndexDelete ''idx_a'', IndexDelete ''idx_b'',
             TableReplace ''t'',
             IndexValidate ''idx_a'', IndexInsert ''idx_a'', IndexInsert ''idx_b'',
             Discard],
          ReadOnly = False\<rparr>"
    using UpdateStmt_Prepare_stream [of ?c ?unset]
    by (simp add: GetTableInfo_def ListIndexes_def GetIndexInfo_def NewPath_def)
  from 1 2 show ?thesis by (rule conjI)
qed

text \<open>
  Claim C6. Preparing \<open>UPDATE t UNSET ...\<close> fails with the error
  \<open>cannot unset primary key path\<close> whenever one of the UNSET fields is a path of the
  primary key of \<open>t\<close>, be the key a single column or composite. \<open>Prepare\<close> then returns
  the error alone: no statement and no stream. It reads the catalog only, so no row changes.
\<close>

theorem UpdateStmt_Prepare_unset_primary_key:
  assumes "GetTableInfo c (upd_TableName stmt) = Inr ti"
    and "GetPrimaryKey ti = Some pk"
    and "SetPairs stmt = None"
    and "UnsetFields stmt = Some names"
    and "name \<in> set names"
    and "NewPath name \<in> set (Paths pk)"
  shows "UpdateStmt_Prepare c stmt = Inl (ErrMsg ''cannot unset primary key path'')
         \<and> (\<forall>st. UpdateStmt_Prepare c stmt \<noteq> Inr st)"
proof -
  have "unset_fields_loop (Some pk) names s = Inl (ErrMsg ''cannot unset primary key path'')" for s
    using assms(5,6) by (intro unset_fields_loop_Inl) auto
  with assms(1-4) show ?thesis
    by (simp add: UpdateStmt_Prepare_def update_paths_def Let_def)
qed

theorem UpdateStmt_Prepare_unset_primary_key_witness:
  "UpdateStmt_Prepare
     \<lparr>tables = [(''test'', \<lparr>PrimaryKey = Some \<lparr>Paths = [[FieldName ''a''], [FieldName ''b'']]\<rparr>,
                            RowidSequenceName = ''''\<rparr>)],
      indexes = [], sequences = []\<rparr>
     \<lparr>upd_TableName = ''test'', SetPairs = None, UnsetFields = Some [''c'', ''b''],
      WhereExpr = Some ''a = 1''\<rparr>
   = Inl (ErrMsg ''cannot unset primary key path'')"
proof -
  let ?ti = "\<lparr>PrimaryKey = Some \<lparr>Paths = [[FieldName ''a''], [FieldName ''b'']]\<rparr>,
              RowidSequenceName = ''''\<rparr>"
  let ?c = "\<lparr>tables = [(''test'', ?ti)], indexes = [], sequences = []\<rparr>"
  let ?stmt = "\<lparr>upd_TableName = ''test'', SetPairs = None, UnsetFields = Some [''c'', ''b''],
      WhereExpr = Some ''a = 1''\<rparr>"
  have 1: "GetTableInfo ?c (upd_TableName ?stmt) = Inr ?ti"
    by (simp add: GetTableInfo_def)
  have 2: "GetPrimaryKey ?ti = Some \<lparr>Paths = [[FieldName ''a''], [FieldName ''b'']]\<rparr>"
    by (simp add: GetPrimaryKey_def)
  have 3: "SetPairs ?stmt = None" and 4: "UnsetFields ?stmt = Some [''c'', ''b'']"
    by simp_all
  have 5: "''b'' \<in> set [''c'', ''b'']" by simp
  have 6: "NewPath ''b'' \<in> set (Paths \<lparr>Paths = [[FieldName ''a''], [FieldName ''b'']]\<rparr>)"
    by (simp add: NewPath_def)
  from UpdateStmt_Prepare_unset_primary_key [OF 1 2 3 4 5 6] show ?thesis by simp
qed
section \<open>DROP SEQUENCE and DROP TABLE\<close>



lemma map_of_filter_neq: "map_of (filter (\<lambda>(n, v). n \<noteq> k) xs) k = None"
  by (induction xs) auto

lemma map_of_filter_neq_other:
  "k' \<noteq> k \<Longrightarrow> map_of (filter (\<lambda>(n, v). n \<noteq> k) xs) k' = map_of xs k'"
  by (induction xs) auto

text \<open>
  Claim C10. When \<open>DropTableStmt.Run\<close> succeeds on a table that exists, the table (with its
  indexes) is gone from the catalog. If the table has no primary key, \<open>Run\<close> has also called
  \<open>DropSequence\<close> on \<open>Info.RowidSequenceName\<close>: that sequence was in the catalog and is gone,
  and every other sequence is kept. If the table has a primary key, the catalog is exactly as
  \<open>DropTable\<close> left it: no sequence is dropped, and the other tables are unchanged.
\<close>

theorem DropTableStmt_Run_rowid_sequence:
  assumes "GetTable c (dt_TableName stmt) = Inr tb"
    and "DropTableStmt_Run c stmt = (None, c')"
  defines "rowid \<equiv> RowidSequenceName (Info tb)"
  shows "map_of (tables c') (dt_TableName stmt) = None
     \<and> tables c' = filter (\<lambda>(n, ti). n \<noteq> dt_TableName stmt) (tables c)
     \<and> indexes c' =
         filter (\<lambda>(n, info). TableName (idx_Owner info) \<noteq> dt_TableName stmt) (indexes c)
     \<and> (PrimaryKey (Info tb) = None \<longrightarrow>
          (\<exists>c1. DropTable c (dt_TableName stmt) = Inr c1 \<and> DropSequence c1 rowid = Inr c')
          \<and> map_of (sequences c) rowid \<noteq> None
          \<and> map_of (sequences c') rowid = None
          \<and> sequences c' = filter (\<lambda>(n, info). n \<noteq> rowid) (sequences c))
     \<and> (PrimaryKey (Info tb) \<noteq> None \<longrightarrow>
          DropTable c (dt_TableName stmt) = Inr c' \<and> sequences c' = sequences c)"
proof -
  from assms(1,2) obtain c1 where c1: "DropTable c (dt_TableName stmt) = Inr c1"
    by (auto simp: DropTableStmt_Run_def split: if_splits sum.splits)
  then have c1_eq: "c1 = c\<lparr>tables := filter (\<lambda>(n, ti). n \<noteq> dt_TableName stmt) (tables c),
        indexes := filter (\<lambda>(n, info). TableName (idx_Owner info) \<noteq> dt_TableName stmt) (indexes c)\<rparr>"
    by (auto simp: DropTable_def split: option.splits)
  show ?thesis
  proof (cases "PrimaryKey (Info tb) = None")
    case True
    with assms(1,2) c1 have c2: "DropSequence c1 rowid = Inr c'"
      by (auto simp: DropTableStmt_Run_def rowid_def split: if_splits sum.splits)
    then have "map_of (sequences c1) rowid \<noteq> None"
      and "c' = c1\<lparr>sequences := filter (\<lambda>(n, info). n \<noteq> rowid) (sequences c1)\<rparr>"
      by (auto simp: DropSequence_def split: option.splits)
    with True c1 c2 c1_eq show ?thesis
      by (simp add: map_of_filter_neq)
  next
    case False
    with assms(1,2) c1 have "c' = c1"
      by (auto simp: DropTableStmt_Run_def split: if_splits sum.splits)
    with False c1 c1_eq show ?thesis
      by (auto simp: map_of_filter_neq)
  qed
qed

theorem DropTableStmt_Run_rowid_sequence_witness:
  "DropTableStmt_Run
     \<lparr>tables = [(''t'', \<lparr>PrimaryKey = None, RowidSequenceName = ''t_seq''\<rparr>),
                 (''u'', \<lparr>PrimaryKey = Some \<lparr>Paths = [[FieldName ''a'']]\<rparr>,
                         RowidSequenceName = ''''\<rparr>)],
      indexes = [(''idx_t'', \<lparr>idx_Owner = \<lparr>TableName = ''t''\<rparr>, Unique = False\<rparr>)],
      sequences = [(''t_seq'', \<lparr>Name = ''t_seq'', seq_Owner = \<lparr>TableName = ''t''\<rparr>\<rparr>),
                   (''s'', \<lparr>Name = ''s'', seq_Owner = \<lparr>TableName = ''''\<rparr>\<rparr>)]\<rparr>
     \<lparr>dt_TableName = ''t'', dt_IfExists = False\<rparr>
   = (None,
      \<lparr>tables = [(''u'', \<lparr>PrimaryKey = Some \<lparr>Paths = [[FieldName ''a'']]\<rparr>,
                          RowidSequenceName = ''''\<rparr>)],
       indexes = [],
       sequences = [(''s'', \<lparr>Name = ''s'', seq_Owner = \<lparr>TableName = ''''\<rparr>\<rparr>)]\<rparr>)
   \<and> DropTableStmt_Run
     \<lparr>tables = [(''u'', \<lparr>PrimaryKey = Some \<lparr>Paths = [[FieldName ''a'']]\<rparr>,
                         RowidSequenceName = ''''\<rparr>)],
      indexes = [],
      sequences = [(''s'', \<lparr>Name = ''s'', seq_Owner = \<lparr>TableName = ''''\<rparr>\<rparr>)]\<rparr>
     \<lparr>dt_TableName = ''u'', dt_IfExists = False\<rparr>
   = (None,
      \<lparr>tables = [], indexes = [],
       sequences = [(''s'', \<lparr>Name = ''s'', seq_Owner = \<lparr>TableName = ''''\<rparr>\<rparr>)]\<rparr>)"
proof -
  let ?t = "\<lparr>PrimaryKey = None, RowidSequenceName = ''t_seq''\<rparr>"
  let ?u = "\<lparr>PrimaryKey = Some \<lparr>Paths = [[FieldName ''a'']]\<rparr>, RowidSequenceName = ''''\<rparr>"
  let ?s = "(''s'', \<lparr>Name = ''s'', seq_Owner = \<lparr>TableName = ''''\<rparr>\<rparr>)"
  let ?c = "\<lparr>tables = [(''t'', ?t), (''u'', ?u)],
      indexes = [(''idx_t'', \<lparr>idx_Owner = \<lparr>TableName = ''t''\<rparr>, Unique = False\<rparr>)],
      sequences = [(''t_seq'', \<lparr>Name = ''t_seq'', seq_Owner = \<lparr>TableName = ''t''\<rparr>\<rparr>), ?s]\<rparr>"
  let ?c1 = "\<lparr>tables = [(''u'', ?u)], indexes = [], sequences = [?s]\<rparr>"
  let ?st = "\<lparr>dt_TableName = ''t'', dt_IfExists = False\<rparr>"
  let ?su = "\<lparr>dt_TableName = ''u'', dt_IfExists = False\<rparr>"
  obtain e1 c1 where r1: "DropTableStmt_Run ?c ?st = (e1, c1)" by force
  have g1: "GetTable ?c (dt_TableName ?st) = Inr \<lparr>Info = ?t\<rparr>"
    by (simp add: GetTable_def GetTableInfo_def)
  have e1: "e1 = None"
    using r1 by (simp add: DropTableStmt_Run_def GetTable_def GetTableInfo_def DropTable_def
        DropSequence_def)
  from DropTableStmt_Run_rowid_sequence [OF g1 r1 [unfolded e1]]
  have "tables c1 = [(''u'', ?u)]" "indexes c1 = []" "sequences c1 = [?s]"
    by simp_all
  then have c1: "c1 = ?c1" by (cases c1) simp
  obtain e2 c2 where r2: "DropTableStmt_Run ?c1 ?su = (e2, c2)" by force
  have g2: "GetTable ?c1 (dt_TableName ?su) = Inr \<lparr>Info = ?u\<rparr>"
    by (simp add: GetTable_def GetTableInfo_def)
  have e2: "e2 = None"
    using r2 by (simp add: DropTableStmt_Run_def GetTable_def GetTableInfo_def DropTable_def)
  from DropTableStmt_Run_rowid_sequence [OF g2 r2 [unfolded e2]]
  have "tables c2 = []" "indexes c2 = []" "sequences c2 = [?s]"
    by simp_all
  then have c2: "c2 = \<lparr>tables = [], indexes = [], sequences = [?s]\<rparr>" by (cases c2) simp
  from r1 e1 c1 r2 e2 c2 show ?thesis by simp
qed
section \<open>DELETE and INSERT\<close>

text \<open>
  Claim C5. Every DELETE statement compiles to exactly \<open>SeqScan(t)\<close>, then \<open>Filter\<close> only
  when WHERE is present, then \<open>TempTreeSort\<close> only when ORDER BY is present, then \<open>Skip\<close>
  only when OFFSET is present, then \<open>Take\<close> only when LIMIT is present, then
  \<open>TableDelete(t)\<close>, and no other operator: \<open>TempTreeSort\<close> comes before \<open>Skip\<close> and
  \<open>Skip\<close> before \<open>Take\<close>.
\<close>

theorem DeleteStmt_Prepare_stream:
  "DeleteStmt_Prepare stmt =
     Inr \<lparr>Stream =
            [SeqScan (del_TableName stmt)]
            @ (case del_WhereExpr stmt of None \<Rightarrow> [] | Some w \<Rightarrow> [Filter w])
            @ (case OrderBy stmt of None \<Rightarrow> [] | Some e \<Rightarrow> [TempTreeSort e])
            @ (case OffsetExpr stmt of None \<Rightarrow> [] | Some n \<Rightarrow> [Skip n])
            @ (case LimitExpr stmt of None \<Rightarrow> [] | Some n \<Rightarrow> [Take n])
            @ [TableDelete (del_TableName stmt)],
          ReadOnly = False\<rparr>"
  by (simp add: DeleteStmt_Prepare_def StreamStmt_Prepare_def New_def Pipe_def Let_def
        split: option.splits)

text \<open>
  Scenario 5 of the spec, which is the last case of \<open>TestParserDelete\<close>:
  \<open>DELETE FROM test WHERE age = 10 ORDER BY age LIMIT 10 OFFSET 20\<close>.
\<close>

lemma DeleteStmt_Prepare_scenario:
  "DeleteStmt_Prepare
     \<lparr>del_TableName = ''test'', del_WhereExpr = Some ''age = 10'', OrderBy = Some ''age'',
      OffsetExpr = Some 20, LimitExpr = Some 10\<rparr>
   = Inr \<lparr>Stream = [SeqScan ''test'', Filter ''age = 10'', TempTreeSort ''age'', Skip 20,
                     Take 10, TableDelete ''test''],
          ReadOnly = False\<rparr>"
  by (simp add: DeleteStmt_Prepare_def StreamStmt_Prepare_def New_def Pipe_def)

text \<open>
  Claim C4. An INSERT statement with an ON CONFLICT clause always compiles, and its stream has
  the \<open>OnConflict\<close> operator immediately between \<open>TableValidate\<close> and \<open>TableInsert\<close>, and
  nowhere else. \<open>ON CONFLICT DO NOTHING\<close> and \<open>ON CONFLICT IGNORE\<close> both parse to the action
  compiled to \<open>OnConflict(nil)\<close>; \<open>ON CONFLICT DO REPLACE\<close> and \<open>ON CONFLICT REPLACE\<close> both
  parse to the action compiled to \<open>OnConflict(Stream(TableReplace(T)))\<close>; the parser accepts
  these four forms only.
\<close>

theorem InsertStmt_Prepare_on_conflict:
  assumes "ins_OnConflict stmt = Some a"
  defines "T \<equiv> ins_TableName stmt"
  defines "alt \<equiv> (case a of OnConflictDoNothing \<Rightarrow> None
                           | OnConflictDoReplace \<Rightarrow> Some [TableReplace T])"
  shows "(\<exists>st post. InsertStmt_Prepare c stmt = Inr st
            \<and> Stream st = insert_source stmt
                           @ [TableValidate T, OnConflict alt, TableInsert T] @ post
            \<and> \<not> list_ex is_OnConflict (insert_source stmt @ post))
     \<and> parseOnConflict (DO # NOTHING # rest) = Inr (OnConflictDoNothing, rest)
     \<and> parseOnConflict (IGNORE # rest) = Inr (OnConflictDoNothing, rest)
     \<and> parseOnConflict (DO # REPLACE # rest) = Inr (OnConflictDoReplace, rest)
     \<and> parseOnConflict (REPLACE # rest) = Inr (OnConflictDoReplace, rest)
     \<and> ((\<exists>r. parseOnConflict toks = Inr r) =
          (\<exists>rest'. toks = DO # NOTHING # rest' \<or> toks = IGNORE # rest'
                  \<or> toks = DO # REPLACE # rest' \<or> toks = REPLACE # rest'))"
proof -
  define s4 where "s4 = insert_source stmt @ [TableValidate T, OnConflict alt, TableInsert T]"
  define idx where "idx = concat (map (\<lambda>n. (if (case GetIndexInfo c n of Inr info \<Rightarrow> Unique info | Inl e \<Rightarrow> False)
                               then [IndexValidate n] else []) @ [IndexInsert n]) (ListIndexes c T))"
  obtain s5 where s5: "index_insert_loop c (ListIndexes c T) s4 = Inr s5"
    using index_insert_loop_total [of "ListIndexes c T" c s4] ListIndexes_in_catalog by blast
  from index_insert_loop_Inr [OF s5] have s5_eq: "s5 = s4 @ idx"
    by (simp add: idx_def)
  define tail where "tail = (if Returning stmt = [] then [Discard]
                 else if Returning stmt = [Wildcard] then []
                 else [Project (Returning stmt)])"
  have prep: "InsertStmt_Prepare c stmt = Inr \<lparr>Stream = s5 @ tail, ReadOnly = False\<rparr>"
    using assms(1) s5
    by (cases a)
       (simp_all add: InsertStmt_Prepare_def Let_def s4_def alt_def T_def Pipe_def New_def
          StreamStmt_Prepare_def tail_def)
  have src: "\<not> list_ex is_OnConflict (insert_source stmt)"
    by (auto simp: insert_source_def New_def Pipe_def Let_def split: InsertSource.splits option.splits)
  have idx: "\<not> list_ex is_OnConflict idx"
    by (auto simp: idx_def list_ex_iff)
  have tail: "\<not> list_ex is_OnConflict tail"
    by (simp add: tail_def)
  have 1: "\<exists>st post. InsertStmt_Prepare c stmt = Inr st
            \<and> Stream st = insert_source stmt
                           @ [TableValidate T, OnConflict alt, TableInsert T] @ post
            \<and> \<not> list_ex is_OnConflict (insert_source stmt @ post)"
    using prep src idx tail
    by (intro exI [of _ "\<lparr>Stream = s5 @ tail, ReadOnly = False\<rparr>"] exI [of _ "idx @ tail"])
       (simp add: s5_eq s4_def)
  have 2: "(\<exists>r. parseOnConflict toks = Inr r) =
          (\<exists>rest'. toks = DO # NOTHING # rest' \<or> toks = IGNORE # rest'
                  \<or> toks = DO # REPLACE # rest' \<or> toks = REPLACE # rest')"
    by (cases toks rule: parseOnConflict.cases) auto
  from 1 2 show ?thesis by simp
qed

theorem InsertStmt_Prepare_on_conflict_witness:
  "InsertStmt_Prepare \<lparr>tables = [], indexes = [], sequences = []\<rparr>
     \<lparr>ins_TableName = ''test'', Source = Values [''{a: c, b: d}''], Fields = [''a'', ''b''],
      ins_OnConflict = Some OnConflictDoReplace, Returning = [Wildcard]\<rparr>
   = Inr \<lparr>Stream = [Emit [''{a: c, b: d}''], TableValidate ''test'',
                     OnConflict (Some [TableReplace ''test'']), TableInsert ''test''],
          ReadOnly = False\<rparr>"
proof -
  let ?c = "\<lparr>tables = [], indexes = [], sequences = []\<rparr>"
  let ?stmt = "\<lparr>ins_TableName = ''test'', Source = Values [''{a: c, b: d}''],
      Fields = [''a'', ''b''], ins_OnConflict = Some OnConflictDoReplace, Returning = [Wildcard]\<rparr>"
  have h: "ins_OnConflict ?stmt = Some OnConflictDoReplace" by simp
  note inst = InsertStmt_Prepare_on_conflict [OF h, where c = ?c and rest = "[]" and toks = "[]"]
  from inst [THEN conjunct1]
  obtain st post where st: "InsertStmt_Prepare ?c ?stmt = Inr st"
    and pre: "Stream st = insert_source ?stmt
           @ [TableValidate (ins_TableName ?stmt),
              OnConflict (case OnConflictDoReplace of OnConflictDoNothing \<Rightarrow> None
                           | OnConflictDoReplace \<Rightarrow> Some [TableReplace (ins_TableName ?stmt)]),
              TableInsert (ins_TableName ?stmt)]
           @ post"
    by blast
  have "InsertStmt_Prepare ?c ?stmt = Inr \<lparr>Stream = [Emit [''{a: c, b: d}''],
      TableValidate ''test'', OnConflict (Some [TableReplace ''test'']), TableInsert ''test''],
      ReadOnly = False\<rparr>"
    by (simp add: InsertStmt_Prepare_def insert_source_def ListIndexes_def StreamStmt_Prepare_def
          New_def Pipe_def Let_def)
  with st pre show ?thesis by simp
qed
section \<open>The order of byte strings\<close>

lemma append_less_cancel: "(p @ a < p @ b) = (a < b)" for a b :: "'a::linorder list"
  by (induction p) auto

lemma append_le_cancel: "(p @ a \<le> p @ b) = (a \<le> b)" for a b :: "'a::linorder list"
  by (induction p) auto

lemma less_append_Cons: "k < k @ d # r" for k :: "'a::linorder list"
  using append_less_cancel [of k "[]" "d # r"] by simp

lemma le_append: "k \<le> k @ r" for k :: "'a::linorder list"
  using append_le_cancel [of k "[]" r] by simp

lemma byte_less_FF: "b \<noteq> 0xFF \<Longrightarrow> b < 0xFF" for b :: byte
proof -
  assume "b \<noteq> 0xFF"
  moreover have "b \<le> - 1" by (rule word_n1_ge)
  moreover have "(0xFF :: byte) = - 1" by simp
  ultimately show ?thesis by (simp only: order.strict_iff_order) simp
qed

lemma extension_less_bound:
  "rest = [] \<or> hd rest \<noteq> 0xFF \<Longrightarrow> k @ D # rest < k @ [D, 0xFF]" for k :: bytes
  by (cases rest) (auto simp: append_less_cancel dest: byte_less_FF)

lemma same_length_append_less:
  "length a = length b \<Longrightarrow> a \<noteq> b \<Longrightarrow> (a @ r < b @ s) = (a < b)" for a b :: "'a::linorder list"
  by (induction a b rule: list_induct2) auto

lemma HasPrefix_append [simp]: "HasPrefix (p @ x) p"
  by (simp add: HasPrefix_def)

lemma HasPrefix_iff: "HasPrefix s p \<longleftrightarrow> (\<exists>x. s = p @ x)"
  by (metis HasPrefix_def append_eq_conv_conj)

lemma TrimPrefix_append [simp]: "TrimPrefix (p @ x) p = x"
  by (simp add: TrimPrefix_def)

lemma between_HasPrefix:
  "p @ a \<le> x \<Longrightarrow> x < p @ b \<Longrightarrow> HasPrefix x p"
proof (induction p arbitrary: x)
  case Nil
  then show ?case by (simp add: HasPrefix_def)
next
  case (Cons c p)
  then show ?case
    by (cases x) (auto simp: HasPrefix_def)
qed

section \<open>The loop of \<open>IterateOnRange\<close>\<close>

lemma iterate_loop_forward:
  "0 \<le> pos it \<Longrightarrow>
   iterate_loop False P collect it acc =
     Inr (acc @ map (\<lambda>(k, v). (TrimPrefix k P, v)) (drop (nat (pos it)) (items it)))"
proof (induction "nat (int (length (items it)) - pos it)" arbitrary: it acc)
  case 0
  then show ?case
    by (subst iterate_loop.simps) (simp add: it_Valid_def)
next
  case (Suc n)
  from Suc.hyps(2) Suc.prems have valid: "it_Valid it" and lt: "nat (pos it) < length (items it)"
    by (auto simp: it_Valid_def)
  have n: "n = nat (int (length (items (it_Next it))) - pos (it_Next it))"
    using Suc.hyps(2) by (simp add: it_Next_def)
  have p: "0 \<le> pos (it_Next it)"
    using Suc.prems by (simp add: it_Next_def)
  have nx: "nat (pos (it_Next it)) = Suc (nat (pos it))"
    using Suc.prems by (simp add: it_Next_def nat_add_distrib)
  show ?case
    apply (subst iterate_loop.simps)
    apply (simp add: valid collect_def [of _ _ acc] Suc.hyps(1) [OF n p] nx)
    apply (simp add: it_Next_def it_Key_def it_Value_def
        Cons_nth_drop_Suc [OF lt, symmetric] split: prod.splits)
    done
qed

lemma iterate_loop_backward:
  "pos it < int (length (items it)) \<Longrightarrow>
   iterate_loop True P collect it acc =
     Inr (acc @ map (\<lambda>(k, v). (TrimPrefix k P, v)) (rev (take (nat (pos it + 1)) (items it))))"
proof (induction "nat (pos it + 1)" arbitrary: it acc)
  case 0
  then show ?case
    by (subst iterate_loop.simps) (simp add: it_Valid_def)
next
  case (Suc n)
  from Suc.hyps(2) Suc.prems have valid: "it_Valid it" and lt: "nat (pos it) < length (items it)"
    and n_eq: "n = nat (pos it)"
    by (auto simp: it_Valid_def)
  have n: "n = nat (pos (it_Prev it) + 1)"
    using Suc.hyps(2) by (simp add: it_Prev_def)
  have p: "pos (it_Prev it) < int (length (items (it_Prev it)))"
    using Suc.prems by (simp add: it_Prev_def)
  have "take (Suc n) (items it) = take n (items it) @ [items it ! n]"
    using lt n_eq by (simp add: take_Suc_conv_app_nth)
  then have tk: "take (nat (pos it + 1)) (items it) = take n (items it) @ [items it ! n]"
    using Suc.hyps(2) by simp
  show ?case
    apply (subst iterate_loop.simps)
    apply (simp add: valid collect_def [of _ _ acc] Suc.hyps(1) [OF n p] tk)
    apply (simp add: it_Prev_def it_Key_def it_Value_def n_eq split: prod.splits)
    done
qed

lemma iterate_loop_collect:
  "iterate_loop reverse P collect
     (if \<not> reverse then it_First (kv_Iterator es lo hi) else it_Last (kv_Iterator es lo hi)) [] =
   Inr (map (\<lambda>(k, v). (TrimPrefix k P, v))
          ((if reverse then rev else id) (filter (\<lambda>(k, v). lo \<le> k \<and> k < hi) es)))"
proof (cases reverse)
  case True
  have "pos (it_Last (kv_Iterator es lo hi)) < int (length (items (it_Last (kv_Iterator es lo hi))))"
    by (simp add: it_Last_def)
  from iterate_loop_backward [OF this, of P "[]"] True show ?thesis
    by (simp add: it_Last_def kv_Iterator_def)
next
  case False
  have "0 \<le> pos (it_First (kv_Iterator es lo hi))"
    by (simp add: it_First_def)
  from iterate_loop_forward [OF this, of P "[]"] False show ?thesis
    by (simp add: it_First_def kv_Iterator_def)
qed
section \<open>\<open>IterateOnRange\<close> on a tree of a namespace\<close>

lemma IterateOnRange_namespace_eq:
  assumes "Namespace t = Some ns" and "TransientStore t = None"
  shows "IterateOnRange D t (Some rng) reverse collect [] =
         Ok (map (\<lambda>(k, v). (TrimPrefix k (id_prefix (ID ns)), v))
               ((if reverse then rev else id)
                  (filter (\<lambda>(k, v).
                     (case rng_Min rng of
                        None \<Rightarrow> id_prefix (ID ns)
                      | Some m \<Rightarrow> if Exclusive rng then id_prefix (ID ns) @ m @ [D, 0xFF]
                                  else id_prefix (ID ns) @ m) \<le> k
                     \<and> k < (case rng_Max rng of
                              None \<Rightarrow> UpperBound (ID ns)
                            | Some m \<Rightarrow> if Exclusive rng then id_prefix (ID ns) @ m
                                        else id_prefix (ID ns) @ m @ [D, 0xFF]))
                     (db ns))))"
  using assms
  by (simp add: IterateOnRange_def Let_def ns_Iterator_def iterate_loop_collect
        buildKey_def buildFirstKey_def buildLastKey_def buildStartKeyInclusive_def
        buildStartKeyExclusive_def buildEndKeyInclusive_def buildEndKeyExclusive_def
        BuildKey_def split: option.splits)

lemma IterateOnRange_nil_range:
  "IterateOnRange D t None reverse fn s =
   IterateOnRange D t (Some \<lparr>rng_Min = None, rng_Max = None, Exclusive = False\<rparr>) reverse fn s"
  by (simp add: IterateOnRange_def)

lemma in_range_HasPrefix:
  assumes "UpperBound_ok ns" and "(k, v) \<in> set (db ns)"
    and "(case mn of None \<Rightarrow> id_prefix (ID ns) | Some m \<Rightarrow> id_prefix (ID ns) @ f m) \<le> k"
    and "k < (case mx of None \<Rightarrow> UpperBound (ID ns) | Some m \<Rightarrow> id_prefix (ID ns) @ g m)"
  shows "HasPrefix k (id_prefix (ID ns))"
proof -
  obtain a where lo: "id_prefix (ID ns) @ a \<le> k"
    using assms(3) by (cases mn) (auto intro: that [of "[]"])
  show ?thesis
  proof (cases mx)
    case None
    have "id_prefix (ID ns) \<le> id_prefix (ID ns) @ a" by (rule le_append)
    from this lo have "id_prefix (ID ns) \<le> k" by (rule order_trans)
    with assms(1,2,4) None show ?thesis
      by (auto simp: UpperBound_ok_def)
  next
    case (Some m)
    with assms(4) have "k < id_prefix (ID ns) @ g m" by simp
    with lo show ?thesis by (rule between_HasPrefix)
  qed
qed

lemma visited_iff:
  fixes mn :: "'a option" and mx :: "'b option" and f :: "'a \<Rightarrow> bytes" and g :: "'b \<Rightarrow> bytes"
  assumes "UpperBound_ok ns"
  defines "P \<equiv> id_prefix (ID ns)"
  defines "lo \<equiv> (case mn of None \<Rightarrow> P | Some m \<Rightarrow> P @ f m)"
  defines "hi \<equiv> (case mx of None \<Rightarrow> UpperBound (ID ns) | Some m \<Rightarrow> P @ g m)"
  shows "((x, v) \<in> set (map (\<lambda>(k, v). (TrimPrefix k P, v))
                          (filter (\<lambda>(k, v). lo \<le> k \<and> k < hi) (db ns))))
         = ((P @ x, v) \<in> set (db ns) \<and> lo \<le> P @ x \<and> P @ x < hi)"
proof
  assume "(x, v) \<in> set (map (\<lambda>(k, v). (TrimPrefix k P, v))
                          (filter (\<lambda>(k, v). lo \<le> k \<and> k < hi) (db ns)))"
  then obtain k where k: "(k, v) \<in> set (db ns)" "lo \<le> k" "k < hi" and x: "x = TrimPrefix k P"
    by auto
  from in_range_HasPrefix [OF assms(1) k(1), where mn = mn and f = f and mx = mx and g = g] k(2,3)
  have "HasPrefix k P" unfolding lo_def hi_def P_def by blast
  then obtain y where "k = P @ y" by (auto simp: HasPrefix_iff)
  with k x show "(P @ x, v) \<in> set (db ns) \<and> lo \<le> P @ x \<and> P @ x < hi" by simp
next
  assume "(P @ x, v) \<in> set (db ns) \<and> lo \<le> P @ x \<and> P @ x < hi"
  then have "(P @ x, v) \<in> set (filter (\<lambda>(k, v). lo \<le> k \<and> k < hi) (db ns))"
    by simp
  then have "(\<lambda>(k, v). (TrimPrefix k P, v)) (P @ x, v)
      \<in> (\<lambda>(k, v). (TrimPrefix k P, v)) ` set (filter (\<lambda>(k, v). lo \<le> k \<and> k < hi) (db ns))"
    by (rule imageI)
  then show "(x, v) \<in> set (map (\<lambda>(k, v). (TrimPrefix k P, v))
                          (filter (\<lambda>(k, v). lo \<le> k \<and> k < hi) (db ns)))"
    by simp
qed
text \<open>
  Claim C1. On a tree of a namespace with prefix \<open>P\<close>, for every range and every key \<open>x\<close>
  stored in the namespace (under \<open>P @ x\<close>), \<open>IterateOnRange\<close> visits \<open>x\<close> if and only if
  \<open>lower \<le> P @ x < upper\<close>, where the lower bound is \<open>P @ k @ [D, 0xFF]\<close> for an exclusive min
  \<open>k\<close>, \<open>P @ k\<close> for an inclusive one and the first key \<open>P\<close> of the namespace for none, and
  the exclusive upper bound is \<open>P @ k @ [D, 0xFF]\<close> for an inclusive max \<open>k\<close>, \<open>P @ k\<close> for an
  exclusive one and \<open>UpperBound()\<close> for none. So an exclusive min \<open>k\<close> skips \<open>k\<close> and every
  key that extends \<open>k\<close> by the delimiter and an encoded value (whose first byte, a type tag,
  is not \<open>0xFF\<close>); an inclusive max \<open>k\<close> includes \<open>k\<close> and these extensions, when they pass
  the lower bound; an exclusive max \<open>k\<close> stops below \<open>k\<close>. Reverse iteration visits the same
  entries, in the opposite order. A \<open>nil\<close> range is the range with no bound.
\<close>

theorem IterateOnRange_visits_iff:
  fixes t :: "'d Tree" and D :: byte and rng :: Range
  assumes "Namespace t = Some ns" and "TransientStore t = None" and "UpperBound_ok ns"
  defines "P \<equiv> id_prefix (ID ns)"
  defines "lower \<equiv> (case rng_Min rng of
                      None \<Rightarrow> P
                    | Some k \<Rightarrow> if Exclusive rng then P @ k @ [D, 0xFF] else P @ k)"
  defines "upper \<equiv> (case rng_Max rng of
                      None \<Rightarrow> UpperBound (ID ns)
                    | Some k \<Rightarrow> if Exclusive rng then P @ k else P @ k @ [D, 0xFF])"
  shows "\<exists>vis.
           IterateOnRange D t (Some rng) False collect [] = Ok vis
         \<and> IterateOnRange D t (Some rng) True collect [] = Ok (rev vis)
         \<and> (\<forall>x v. ((x, v) \<in> set vis)
                  = ((P @ x, v) \<in> set (db ns) \<and> lower \<le> P @ x \<and> P @ x < upper))
         \<and> (\<forall>k rest v. rng_Min rng = Some k \<and> Exclusive rng \<and> (rest = [] \<or> hd rest \<noteq> 0xFF)
                \<longrightarrow> (k, v) \<notin> set vis \<and> (k @ D # rest, v) \<notin> set vis)
         \<and> (\<forall>k rest x v. rng_Max rng = Some k \<and> \<not> Exclusive rng
                \<and> (rest = [] \<or> hd rest \<noteq> 0xFF) \<and> (x = k \<or> x = k @ D # rest)
                \<and> (P @ x, v) \<in> set (db ns) \<and> lower \<le> P @ x
                \<longrightarrow> (x, v) \<in> set vis)
         \<and> (\<forall>k x v. rng_Max rng = Some k \<and> Exclusive rng \<and> (x, v) \<in> set vis \<longrightarrow> x < k)
         \<and> IterateOnRange D t None reverse collect [] =
             IterateOnRange D t (Some \<lparr>rng_Min = None, rng_Max = None, Exclusive = False\<rparr>)
               reverse collect []"
proof -
  define vis where "vis = map (\<lambda>(k, v). (TrimPrefix k P, v))
                            (filter (\<lambda>(k, v). lower \<le> k \<and> k < upper) (db ns))"
  have fwd: "IterateOnRange D t (Some rng) False collect [] = Ok vis"
    using IterateOnRange_namespace_eq [OF assms(1,2), of D rng False]
    unfolding vis_def lower_def upper_def P_def by simp
  have bwd: "IterateOnRange D t (Some rng) True collect [] = Ok (rev vis)"
    using IterateOnRange_namespace_eq [OF assms(1,2), of D rng True]
    unfolding vis_def lower_def upper_def P_def by (simp add: rev_map)
  have iff: "((x, v) \<in> set vis)
              = ((P @ x, v) \<in> set (db ns) \<and> lower \<le> P @ x \<and> P @ x < upper)" for x v
    using visited_iff [OF assms(3), where x = x and v = v and mn = "rng_Min rng" and mx = "rng_Max rng"
        and f = "\<lambda>k. if Exclusive rng then k @ [D, 0xFF] else k"
        and g = "\<lambda>k. if Exclusive rng then k else k @ [D, 0xFF]"]
    unfolding vis_def lower_def upper_def P_def
    by (simp add: if_distrib [of "\<lambda>z. _ @ z"] cong: option.case_cong if_cong)
  have excl_min: "(k, v) \<notin> set vis \<and> (k @ D # rest, v) \<notin> set vis"
    if "rng_Min rng = Some k" "Exclusive rng" "rest = [] \<or> hd rest \<noteq> 0xFF" for k rest v
  proof -
    have "k < k @ [D, 0xFF]" by (rule less_append_Cons)
    then have 1: "P @ k < lower"
      using append_less_cancel [of P k "k @ [D, 0xFF]"] that(1,2) by (simp add: lower_def)
    have "k @ D # rest < k @ [D, 0xFF]"
      using that(3) by (rule extension_less_bound)
    then have 2: "P @ k @ D # rest < lower"
      using append_less_cancel [of P "k @ D # rest" "k @ [D, 0xFF]"] that(1,2)
      by (simp add: lower_def)
    from 1 2 show ?thesis
      unfolding iff by (simp only: not_le [symmetric]) blast
  qed
  have incl_max: "(x, v) \<in> set vis"
    if "rng_Max rng = Some k" "\<not> Exclusive rng" "rest = [] \<or> hd rest \<noteq> 0xFF"
      "x = k \<or> x = k @ D # rest" "(P @ x, v) \<in> set (db ns)" "lower \<le> P @ x" for k rest x v
  proof -
    have "k < k @ [D, 0xFF]" by (rule less_append_Cons)
    moreover have "k @ D # rest < k @ [D, 0xFF]"
      using that(3) by (rule extension_less_bound)
    ultimately have "x < k @ [D, 0xFF]" using that(4) by blast
    then have "P @ x < upper"
      using append_less_cancel [of P x "k @ [D, 0xFF]"] that(1,2) by (simp add: upper_def)
    with that(5,6) show ?thesis
      unfolding iff by blast
  qed
  have excl_max: "x < k" if "rng_Max rng = Some k" "Exclusive rng" "(x, v) \<in> set vis" for k x v
  proof -
    have "upper = P @ k" using that(1,2) by (simp add: upper_def)
    with that(3) have "P @ x < P @ k" unfolding iff by simp
    then show ?thesis using append_less_cancel [of P x k] by blast
  qed
  show ?thesis
    apply (rule exI [of _ vis])
    apply (intro conjI allI impI)
    subgoal by (rule fwd)
    subgoal by (rule bwd)
    subgoal by (rule iff)
    subgoal using excl_min by blast
    subgoal using excl_min by blast
    subgoal using incl_max by blast
    subgoal using excl_max by blast
    subgoal by (rule IterateOnRange_nil_range)
    done
qed
theorem IterateOnRange_visits_iff_witness:
  "IterateOnRange 0x1F
     \<lparr>Namespace = Some \<lparr>ID = \<lparr>id_prefix = [1], UpperBound = [2]\<rparr>,
                         db = [([1, 0x20, 1], [0]), ([1, 0x20, 1, 0x1F, 0x20, 5], [0]),
                               ([1, 0x20, 2], [0]), ([1, 0x20, 3], [0]), ([2, 0x20, 0], [0])]\<rparr>,
      TransientStore = None,
      Codec = \<lparr>Encode = Inr, Decode = Inr\<rparr>\<rparr>
     (Some \<lparr>rng_Min = Some [0x20, 1], rng_Max = None, Exclusive = True\<rparr>)
     True collect []
   = Ok [([0x20, 3], [0]), ([0x20, 2], [0])]"
proof -
  let ?ns = "\<lparr>ID = \<lparr>id_prefix = [1], UpperBound = [2]\<rparr>,
              db = [([1, 0x20, 1], [0]), ([1, 0x20, 1, 0x1F, 0x20, 5], [0]),
                    ([1, 0x20, 2], [0]), ([1, 0x20, 3], [0]), ([2, 0x20, 0], [0::byte])]\<rparr>"
  let ?t = "\<lparr>Namespace = Some ?ns, TransientStore = None,
             Codec = \<lparr>Encode = Inr, Decode = Inr\<rparr>\<rparr> :: bytes Tree"
  let ?rng = "\<lparr>rng_Min = Some [0x20, 1], rng_Max = None, Exclusive = True\<rparr>"
  have ns: "Namespace ?t = Some ?ns" and ts: "TransientStore ?t = None"
    by simp_all
  have ub: "UpperBound_ok ?ns"
    by (simp add: UpperBound_ok_def HasPrefix_def)
  from IterateOnRange_visits_iff [OF ns ts ub, where D = "0x1F" and rng = ?rng and reverse = True]
  obtain vis where fwd: "IterateOnRange 0x1F ?t (Some ?rng) False collect [] = Ok vis"
    and bwd: "IterateOnRange 0x1F ?t (Some ?rng) True collect [] = Ok (rev vis)"
    by blast
  have "IterateOnRange 0x1F ?t (Some ?rng) False collect [] = Ok [([0x20, 2], [0]), ([0x20, 3], [0])]"
    by (simp add: IterateOnRange_def Let_def buildKey_def buildFirstKey_def buildLastKey_def
          buildStartKeyExclusive_def BuildKey_def ns_Iterator_def kv_Iterator_def it_First_def
          iterate_loop.simps it_Valid_def it_Key_def it_Value_def it_Next_def collect_def
          TrimPrefix_def HasPrefix_def)
  with fwd have "vis = [([0x20, 2], [0]), ([0x20, 3], [0])]" by simp
  with bwd show ?thesis by simp
qed

text \<open>
  Claim C9. On a tree of a namespace, every key that \<open>IterateOnRange\<close> passes to the
  callback is a stored key without the prefix of the namespace: the calls are those of a list
  of stored entries, each with the prefix, and the callback receives what follows the prefix.
\<close>

theorem IterateOnRange_strips_prefix:
  fixes t :: "'d Tree"
  assumes "Namespace t = Some ns" and "TransientStore t = None" and "UpperBound_ok ns"
    and "IterateOnRange D t rng reverse collect [] = Ok vis"
  shows "(\<exists>entries. vis = map (\<lambda>(k, v). (drop (length (id_prefix (ID ns))) k, v)) entries
            \<and> (\<forall>(k, v) \<in> set entries.
                  (k, v) \<in> set (db ns) \<and> HasPrefix k (id_prefix (ID ns))))
         \<and> (\<forall>(x, v) \<in> set vis. (id_prefix (ID ns) @ x, v) \<in> set (db ns))"
proof -
  define r where "r = (case rng of None \<Rightarrow> \<lparr>rng_Min = None, rng_Max = None, Exclusive = False\<rparr>
                                 | Some r \<Rightarrow> r)"
  define lo where "lo = (case rng_Min r of
                        None \<Rightarrow> id_prefix (ID ns)
                      | Some m \<Rightarrow> id_prefix (ID ns) @ (if Exclusive r then m @ [D, 0xFF] else m))"
  define hi where "hi = (case rng_Max r of
                              None \<Rightarrow> UpperBound (ID ns)
                            | Some m \<Rightarrow> id_prefix (ID ns) @ (if Exclusive r then m else m @ [D, 0xFF]))"
  define entries where
    "entries = (if reverse then rev else id) (filter (\<lambda>(k, v). lo \<le> k \<and> k < hi) (db ns))"
  have "IterateOnRange D t rng reverse collect [] = IterateOnRange D t (Some r) reverse collect []"
    by (cases rng) (simp_all add: r_def IterateOnRange_nil_range)
  also have "\<dots> = Ok (map (\<lambda>(k, v). (TrimPrefix k (id_prefix (ID ns)), v)) entries)"
    using IterateOnRange_namespace_eq [OF assms(1,2), of D r reverse]
    unfolding entries_def lo_def hi_def
    by (simp add: if_distrib [of "\<lambda>z. _ @ z"] cong: option.case_cong if_cong)
  finally have vis: "vis = map (\<lambda>(k, v). (TrimPrefix k (id_prefix (ID ns)), v)) entries"
    using assms(4) by simp
  have pre: "(k, v) \<in> set (db ns) \<and> HasPrefix k (id_prefix (ID ns))" if "(k, v) \<in> set entries" for k v
  proof -
    from that have k: "(k, v) \<in> set (db ns)" "lo \<le> k" "k < hi"
      by (auto simp: entries_def split: if_splits)
    from in_range_HasPrefix [OF assms(3) k(1), where mn = "rng_Min r" and mx = "rng_Max r"
        and f = "\<lambda>m. if Exclusive r then m @ [D, 0xFF] else m"
        and g = "\<lambda>m. if Exclusive r then m else m @ [D, 0xFF]"] k(2,3)
    have "HasPrefix k (id_prefix (ID ns))" unfolding lo_def hi_def by blast
    with k(1) show ?thesis by simp
  qed
  have map_eq: "map (\<lambda>(k, v). (TrimPrefix k (id_prefix (ID ns)), v)) entries
        = map (\<lambda>(k, v). (drop (length (id_prefix (ID ns))) k, v)) entries"
    using pre by (intro map_cong) (auto simp: TrimPrefix_def)
  have 1: "\<exists>entries. vis = map (\<lambda>(k, v). (drop (length (id_prefix (ID ns))) k, v)) entries
            \<and> (\<forall>(k, v) \<in> set entries.
                  (k, v) \<in> set (db ns) \<and> HasPrefix k (id_prefix (ID ns)))"
    using vis map_eq pre by (intro exI [of _ entries]) auto
  have 2: "(id_prefix (ID ns) @ x, v) \<in> set (db ns)" if "(x, v) \<in> set vis" for x v
  proof -
    from that vis obtain k where k: "(k, v) \<in> set entries" and x: "x = TrimPrefix k (id_prefix (ID ns))"
      by auto
    from pre [OF k] obtain y where "k = id_prefix (ID ns) @ y"
      by (auto simp: HasPrefix_iff)
    with pre [OF k] x show ?thesis by simp
  qed
  from 1 2 show ?thesis by blast
qed

theorem IterateOnRange_strips_prefix_witness:
  "IterateOnRange 0x1F
     \<lparr>Namespace = Some \<lparr>ID = \<lparr>id_prefix = [7, 7], UpperBound = [7, 8]\<rparr>,
                         db = [([7, 6, 1], [1]), ([7, 7, 0x20, 1], [2]), ([7, 7, 0x20, 2], [3]),
                               ([7, 8], [4])]\<rparr>,
      TransientStore = None,
      Codec = \<lparr>Encode = Inr, Decode = Inr\<rparr>\<rparr>
     None False collect []
   = Ok [([0x20, 1], [2]), ([0x20, 2], [3])]
   \<and> ([7, 7] @ [0x20, 1], [2]) \<in> set [([7, 6, 1], [1]), ([7, 7, 0x20, 1], [2::byte]),
                                          ([7, 7, 0x20, 2], [3]), ([7, 8 :: byte], [4])]"
proof -
  let ?ns = "\<lparr>ID = \<lparr>id_prefix = [7, 7], UpperBound = [7, 8]\<rparr>,
              db = [([7, 6, 1], [1]), ([7, 7, 0x20, 1], [2]), ([7, 7, 0x20, 2], [3]),
                    ([7, 8], [4::byte])]\<rparr>"
  let ?t = "\<lparr>Namespace = Some ?ns, TransientStore = None,
             Codec = \<lparr>Encode = Inr, Decode = Inr\<rparr>\<rparr> :: bytes Tree"
  have ns: "Namespace ?t = Some ?ns" and ts: "TransientStore ?t = None"
    by simp_all
  have ub: "UpperBound_ok ?ns"
    by (simp add: UpperBound_ok_def HasPrefix_def)
  have run: "IterateOnRange 0x1F ?t None False collect [] = Ok [([0x20, 1], [2]), ([0x20, 2], [3])]"
    by (simp add: IterateOnRange_def Let_def buildKey_def buildFirstKey_def buildLastKey_def
          BuildKey_def ns_Iterator_def kv_Iterator_def it_First_def
          iterate_loop.simps it_Valid_def it_Key_def it_Value_def it_Next_def collect_def
          TrimPrefix_def HasPrefix_def)
  from IterateOnRange_strips_prefix [OF ns ts ub run]
  have "\<forall>(x, v) \<in> set [([0x20, 1], [2]), ([0x20, 2], [3::byte])].
          (id_prefix (ID ?ns) @ x, v) \<in> set (db ?ns)"
    by blast
  then have "([7, 7] @ [0x20, 1], [2]) \<in> set (db ?ns)"
    by simp
  with run show ?thesis by simp
qed
section \<open>Transient trees\<close>

text \<open>
  Claim C8. On a tree backed by a transient store, \<open>Get\<close>, \<open>Exists\<close>, \<open>Delete\<close> and
  \<open>Truncate\<close> never return normally: each panics with its "not implemented on transient
  tree" message, and leaves the tree as it was. \<open>Put\<close> and \<open>IterateOnRange\<close> never panic
  there: \<open>Put\<close> stores the encoded document in the transient store, and \<open>IterateOnRange\<close>
  with no range visits the stored keys below \<open>[0xFF]\<close> as they are, no prefix stripped.
\<close>

theorem transient_tree_operations:
  fixes t :: "'d Tree"
  assumes "TransientStore t = Some ts"
  shows "Get t key = Panic ''Get not implemented on transient tree''
       \<and> Exists t key = Panic ''Exists not implemented on transient tree''
       \<and> Delete t key = (Panic ''Delete not implemented on transient tree'', t)
       \<and> Truncate t = (Panic ''Truncate not implemented on transient tree'', t)
       \<and> (\<forall>msg. fst (Put t key d) \<noteq> Panic msg)
       \<and> (\<forall>msg. IterateOnRange D t rng reverse fn s \<noteq> Panic msg)
       \<and> (\<forall>enc. (case d of Some doc \<Rightarrow> Encode (Codec t) doc | None \<Rightarrow> Inr [0]) = Inr enc \<longrightarrow>
             snd (Put t key d) = t\<lparr>TransientStore := Some (ts_Put ts key enc)\<rparr>)
       \<and> (Namespace t = None \<longrightarrow>
             IterateOnRange D t None reverse collect [] =
               Ok ((if reverse then rev else id) (filter (\<lambda>(k, v). k < [0xFF]) (ts_db ts))))"
proof -
  have put: "fst (Put t key d) \<noteq> Panic msg" for msg
    using assms by (auto simp: Put_def split: sum.splits option.splits)
  have iter: "IterateOnRange D t rng reverse fn s \<noteq> Panic msg" for msg
    using assms by (auto simp: IterateOnRange_def Let_def split: sum.splits option.splits)
  have stored: "snd (Put t key d) = t\<lparr>TransientStore := Some (ts_Put ts key enc)\<rparr>"
    if "(case d of Some doc \<Rightarrow> Encode (Codec t) doc | None \<Rightarrow> Inr [0]) = Inr enc" for enc
    using assms that by (simp add: Put_def)
  have trim: "map (\<lambda>(k, v). (TrimPrefix k [], v)) es = es" for es :: kv_store
    by (induction es) (auto simp: TrimPrefix_def HasPrefix_def)
  have all: "IterateOnRange D t None reverse collect [] =
           Ok ((if reverse then rev else id) (filter (\<lambda>(k, v). k < [0xFF]) (ts_db ts)))"
    if "Namespace t = None"
    using assms that
    by (simp add: IterateOnRange_def Let_def ts_Iterator_def iterate_loop_collect buildKey_def
          buildFirstKey_def buildLastKey_def trim)
  from put iter stored all assms show ?thesis
    by (simp add: Get_def Exists_def Delete_def Truncate_def)
qed

theorem transient_tree_operations_witness:
  "Get (NewTransient \<lparr>ts_db = [([1], [0])]\<rparr> \<lparr>Encode = Inr, Decode = Inr\<rparr>) [1]
     = (Panic ''Get not implemented on transient tree'' :: bytes outcome)
   \<and> Put (NewTransient \<lparr>ts_db = [([1], [0])]\<rparr> \<lparr>Encode = Inr, Decode = Inr\<rparr>) [0] (Some [5])
     = (Ok [5], NewTransient \<lparr>ts_db = [([0], [5]), ([1], [0])]\<rparr> \<lparr>Encode = Inr, Decode = Inr\<rparr>)
   \<and> IterateOnRange 0x1F
        (NewTransient \<lparr>ts_db = [([0], [5]), ([1], [0])]\<rparr>
           (\<lparr>Encode = Inr, Decode = Inr\<rparr> :: bytes Codec)) None True collect []
     = Ok [([1], [0]), ([0], [5])]"
proof -
  let ?codec = "\<lparr>Encode = Inr, Decode = Inr\<rparr> :: bytes Codec"
  let ?ts = "\<lparr>ts_db = [([1], [0::byte])]\<rparr>"
  let ?ts' = "\<lparr>ts_db = [([0], [5]), ([1], [0::byte])]\<rparr>"
  have 1: "TransientStore (NewTransient ?ts ?codec) = Some ?ts"
    and 2: "TransientStore (NewTransient ?ts' ?codec) = Some ?ts'"
    and 3: "Namespace (NewTransient ?ts' ?codec) = None"
    by (simp_all add: NewTransient_def)
  from transient_tree_operations [OF 1, where key = "[1]"]
  have a: "Get (NewTransient ?ts ?codec) [1] = Panic ''Get not implemented on transient tree''"
    by (rule conjunct1)
  from transient_tree_operations [OF 2, where D = "0x1F" and reverse = True and key = "[]"
      and d = None and rng = None and fn = collect and s = "[]"] 3
  have b: "IterateOnRange 0x1F (NewTransient ?ts' ?codec) None True collect []
           = Ok [([1], [0]), ([0], [5])]"
    by simp
  have "Put (NewTransient ?ts ?codec) [0] (Some [5]) = (Ok [5], NewTransient ?ts' ?codec)"
    by (simp add: Put_def NewTransient_def ts_Put_def)
  with a b show ?thesis by simp
qed

section \<open>Partial keys of a composite index\<close>

lemma incomparable_append_less:
  "\<not> HasPrefix a k \<Longrightarrow> \<not> HasPrefix k a \<Longrightarrow> (a @ r < k @ s) = (a < k)"
proof (induction a arbitrary: k)
  case Nil
  then show ?case by (simp add: HasPrefix_def)
next
  case (Cons x xs)
  show ?case
  proof (cases k)
    case Nil
    with Cons.prems show ?thesis by (simp add: HasPrefix_def)
  next
    case (Cons y ys)
    show ?thesis
    proof (cases "x = y")
      case True
      with Cons.prems Cons have "\<not> HasPrefix xs ys" "\<not> HasPrefix ys xs"
        by (simp_all add: HasPrefix_def)
      from Cons.IH [OF this] True Cons show ?thesis by simp
    next
      case False
      with Cons show ?thesis by simp
    qed
  qed
qed

lemma store_rows_visited:
  fixes rows :: "(bytes \<times> bytes \<times> bytes) list" and es :: kv_store
  assumes store: "filter (\<lambda>(sk, v). HasPrefix sk P) es
                  = map (\<lambda>(a, rest, v). (P @ a @ D # rest, v)) rows"
    and inP: "\<And>sk v. (sk, v) \<in> set es \<Longrightarrow> lo \<le> sk \<Longrightarrow> sk < hi \<Longrightarrow> HasPrefix sk P"
    and sel: "\<And>a rest v. (a, rest, v) \<in> set rows \<Longrightarrow>
                (lo \<le> P @ a @ D # rest \<and> P @ a @ D # rest < hi) = Q a rest v"
  shows "map (\<lambda>(k, v). (TrimPrefix k P, v))
           ((if reverse then rev else id) (filter (\<lambda>(k, v). lo \<le> k \<and> k < hi) es))
         = (if reverse then rev else id)
             (map (\<lambda>(a, rest, v). (a @ D # rest, v)) (filter (\<lambda>(a, rest, v). Q a rest v) rows))"
proof -
  have "filter (\<lambda>(k, v). lo \<le> k \<and> k < hi) es
        = filter (\<lambda>(k, v). lo \<le> k \<and> k < hi) (filter (\<lambda>(sk, v). HasPrefix sk P) es)"
    unfolding filter_filter using inP by (intro filter_cong) auto
  also have "\<dots> = map (\<lambda>(a, rest, v). (P @ a @ D # rest, v))
                     (filter (\<lambda>(a, rest, v). lo \<le> P @ a @ D # rest \<and> P @ a @ D # rest < hi) rows)"
    unfolding store filter_map by (simp add: comp_def split_def)
  also have "filter (\<lambda>(a, rest, v). lo \<le> P @ a @ D # rest \<and> P @ a @ D # rest < hi) rows
             = filter (\<lambda>(a, rest, v). Q a rest v) rows"
    using sel by (intro filter_cong) auto
  finally have "map (\<lambda>(k, v). (TrimPrefix k P, v)) (filter (\<lambda>(k, v). lo \<le> k \<and> k < hi) es)
        = map (\<lambda>(a, rest, v). (a @ D # rest, v)) (filter (\<lambda>(a, rest, v). Q a rest v) rows)"
    by (simp add: comp_def split_def)
  then show ?thesis
    by (cases reverse) (simp_all add: rev_map [symmetric] del: rev_filter)
qed

text \<open>
  Claim C2. Take an index on \<open>(a, b)\<close> whose namespace holds, under the prefix \<open>P\<close>, the
  entries of its rows as the spec lays them out: the encoded \<open>a\<close>, the delimiter \<open>D\<close>, and
  the rest of the key, which begins with the type tag of \<open>b\<close>, never \<open>0xFF\<close>. Let \<open>k\<close> be the
  encoded partial key \<open>[1]\<close>; the encoding of another value of \<open>a\<close> is neither a prefix of
  \<open>k\<close> nor an extension of it. Then the range with min and max \<open>k\<close> yields exactly the rows
  whose \<open>a\<close> is encoded as \<open>k\<close>, whatever their \<open>b\<close>, in the order of the store or in the
  opposite order; these are exactly the stored keys of the byte slice
  \<open>[P @ k @ [D], P @ k @ [D, 0xFF])\<close>. (The bounds that the tree passes to the iterator are
  \<open>P @ k\<close> and \<open>P @ k @ [D, 0xFF]\<close>; no entry of the index lies from \<open>P @ k\<close> up to
  \<open>P @ k @ [D]\<close>.) The range with the max \<open>k\<close> alone yields the rows with \<open>a\<close> at most \<open>k\<close>,
  those of \<open>k\<close> included; the range with the exclusive min \<open>k\<close> yields rows with \<open>a\<close> above
  \<open>k\<close> only, and no key \<open>k @ D # rest\<close>.
\<close>

theorem IterateOnRange_partial_key:
  fixes t :: "'d Tree" and D :: byte and k :: Key and rows :: "(bytes \<times> bytes \<times> bytes) list"
    and reverse :: bool
  assumes "Namespace t = Some ns" and "TransientStore t = None" and "UpperBound_ok ns"
  defines "P \<equiv> id_prefix (ID ns)"
  assumes "filter (\<lambda>(sk, v). HasPrefix sk P) (db ns)
           = map (\<lambda>(a, rest, v). (P @ a @ D # rest, v)) rows"
    and "\<forall>(a, rest, v) \<in> set rows.
           (rest = [] \<or> hd rest \<noteq> 0xFF) \<and> (a = k \<or> (\<not> HasPrefix a k \<and> \<not> HasPrefix k a))"
  defines "entry \<equiv> (\<lambda>(a, rest, v). (a @ D # rest, v))"
  defines "yields \<equiv> (\<lambda>rng sel. IterateOnRange D t (Some rng) reverse collect []
                       = Ok ((if reverse then rev else id) (map entry (filter sel rows))))"
  shows "yields \<lparr>rng_Min = Some k, rng_Max = Some k, Exclusive = False\<rparr> (\<lambda>(a, rest, v). a = k)
       \<and> (\<forall>x v. ((x, v) \<in> set (map entry (filter (\<lambda>(a, rest, v). a = k) rows)))
                = ((P @ x, v) \<in> set (db ns) \<and> P @ k @ [D] \<le> P @ x \<and> P @ x < P @ k @ [D, 0xFF]))
       \<and> yields \<lparr>rng_Min = None, rng_Max = Some k, Exclusive = False\<rparr> (\<lambda>(a, rest, v). a \<le> k)
       \<and> yields \<lparr>rng_Min = Some k, rng_Max = None, Exclusive = True\<rparr>
            (\<lambda>(a, rest, v). k < a \<and> P @ a @ D # rest < UpperBound (ID ns))
       \<and> (\<forall>rest v. rest = [] \<or> hd rest \<noteq> 0xFF \<longrightarrow>
             (k @ D # rest, v)
               \<notin> set (map entry (filter (\<lambda>(a, rest, v). k < a \<and> P @ a @ D # rest < UpperBound (ID ns))
                                    rows)))"
proof -
  note store = assms(5)
  have cols: "rest = [] \<or> hd rest \<noteq> 0xFF" "a = k \<or> (\<not> HasPrefix a k \<and> \<not> HasPrefix k a)"
    if "(a, rest, v) \<in> set rows" for a rest v
    using assms(6) that by auto
  \<comment> \<open>how the key of a row compares with the bounds\<close>
  have below: "(a @ D # rest < k @ [D, 0xFF]) = (a \<le> k)" if "(a, rest, v) \<in> set rows" for a rest v
  proof (cases "a = k")
    case True
    with extension_less_bound [OF cols(1) [OF that], of k D] show ?thesis by simp
  next
    case False
    with cols(2) [OF that] have "(a @ D # rest < k @ [D, 0xFF]) = (a < k)"
      by (intro incomparable_append_less) auto
    with False show ?thesis by auto
  qed
  have above: "(k @ s \<le> a @ D # rest) = (k \<le> a)" if "(a, rest, v) \<in> set rows" "s = [] \<or> s = [D]"
    for a rest v s
  proof (cases "a = k")
    case True
    have "k \<le> k @ D # rest" by (rule le_append)
    moreover have "k @ [D] \<le> (k @ [D]) @ rest" by (rule le_append)
    ultimately show ?thesis using True that(2) by auto
  next
    case False
    with cols(2) [OF that(1)] have "(a @ D # rest < k @ s) = (a < k)"
      by (intro incomparable_append_less) auto
    then show ?thesis by (simp add: not_less [symmetric])
  qed
  have P_less: "(P @ x < P @ y) = (x < y)" and P_le: "(P @ x \<le> P @ y) = (x \<le> y)" for x y :: bytes
    by (rule append_less_cancel, rule append_le_cancel)
  \<comment> \<open>the range with min and max \<open>k\<close>\<close>
  have sel1: "(P @ k \<le> P @ a @ D # rest \<and> P @ a @ D # rest < P @ k @ [D, 0xFF]) = (a = k)"
    if "(a, rest, v) \<in> set rows" for a rest v
    using below [OF that] above [OF that, of "[]"] unfolding P_less P_le by auto
  have 1: "yields \<lparr>rng_Min = Some k, rng_Max = Some k, Exclusive = False\<rparr> (\<lambda>(a, rest, v). a = k)"
    unfolding yields_def entry_def
    using IterateOnRange_namespace_eq [OF assms(1,2), of D
        "\<lparr>rng_Min = Some k, rng_Max = Some k, Exclusive = False\<rparr>" reverse]
      store_rows_visited [of P "db ns" D rows "P @ k" "P @ k @ [D, 0xFF]" "\<lambda>a rest v. a = k" reverse,
        OF store between_HasPrefix [of P k _ "k @ [D, 0xFF]"] sel1]
    by (simp add: P_def)
  \<comment> \<open>the byte slice\<close>
  have 2: "((x, v) \<in> set (map entry (filter (\<lambda>(a, rest, v). a = k) rows)))
           = ((P @ x, v) \<in> set (db ns) \<and> P @ k @ [D] \<le> P @ x \<and> P @ x < P @ k @ [D, 0xFF])" for x v
  proof
    assume "(x, v) \<in> set (map entry (filter (\<lambda>(a, rest, v). a = k) rows))"
    then obtain rest where row: "(k, rest, v) \<in> set rows" and x: "x = k @ D # rest"
      by (auto simp: entry_def)
    from row have "(P @ k @ D # rest, v) \<in> set (map (\<lambda>(a, rest, v). (P @ a @ D # rest, v)) rows)"
      by force
    then have "(P @ x, v) \<in> set (db ns)"
      unfolding store [symmetric] x by simp
    moreover have "P @ k @ [D] \<le> P @ x" "P @ x < P @ k @ [D, 0xFF]"
      using below [OF row] above [OF row, of "[D]"] unfolding P_less P_le x by simp_all
    ultimately show "(P @ x, v) \<in> set (db ns) \<and> P @ k @ [D] \<le> P @ x \<and> P @ x < P @ k @ [D, 0xFF]"
      by simp
  next
    assume a: "(P @ x, v) \<in> set (db ns) \<and> P @ k @ [D] \<le> P @ x \<and> P @ x < P @ k @ [D, 0xFF]"
    then have "(P @ x, v) \<in> set (filter (\<lambda>(sk, v). HasPrefix sk P) (db ns))"
      by simp
    then obtain a' rest where row: "(a', rest, v) \<in> set rows" and x: "x = a' @ D # rest"
      unfolding store by auto
    from a have "a' = k"
      using below [OF row] above [OF row, of "[D]"] unfolding P_less P_le x by auto
    with row x show "(x, v) \<in> set (map entry (filter (\<lambda>(a, rest, v). a = k) rows))"
      by (force simp: entry_def)
  qed
  \<comment> \<open>the range with the max \<open>k\<close> alone\<close>
  have sel3: "(P \<le> P @ a @ D # rest \<and> P @ a @ D # rest < P @ k @ [D, 0xFF]) = (a \<le> k)"
    if "(a, rest, v) \<in> set rows" for a rest v
    using below [OF that] le_append [of P "a @ D # rest"] unfolding P_less by simp
  have in3: "HasPrefix sk P" if "P \<le> sk" "sk < P @ k @ [D, 0xFF]" for sk
    using between_HasPrefix [of P "[]" sk "k @ [D, 0xFF]"] that by simp
  have 3: "yields \<lparr>rng_Min = None, rng_Max = Some k, Exclusive = False\<rparr> (\<lambda>(a, rest, v). a \<le> k)"
    unfolding yields_def entry_def
    using IterateOnRange_namespace_eq [OF assms(1,2), of D
        "\<lparr>rng_Min = None, rng_Max = Some k, Exclusive = False\<rparr>" reverse]
      store_rows_visited [of P "db ns" D rows P "P @ k @ [D, 0xFF]" "\<lambda>a rest v. a \<le> k" reverse,
        OF store in3 sel3]
    by (simp add: P_def)
  \<comment> \<open>the range with the exclusive min \<open>k\<close>\<close>
  have sel4: "(P @ k @ [D, 0xFF] \<le> P @ a @ D # rest \<and> P @ a @ D # rest < UpperBound (ID ns))
              = (k < a \<and> P @ a @ D # rest < UpperBound (ID ns))"
    if "(a, rest, v) \<in> set rows" for a rest v
    using below [OF that] unfolding P_le by (auto simp: not_less [symmetric])
  have in4: "HasPrefix sk P"
    if "(sk, v) \<in> set (db ns)" "P @ k @ [D, 0xFF] \<le> sk" "sk < UpperBound (ID ns)" for sk v
    using in_range_HasPrefix [OF assms(3) that(1), where mn = "Some k" and f = "\<lambda>k. k @ [D, 0xFF]"
        and mx = "None :: Key option" and g = id] that(2,3)
    by (simp add: P_def)
  have 4: "yields \<lparr>rng_Min = Some k, rng_Max = None, Exclusive = True\<rparr>
            (\<lambda>(a, rest, v). k < a \<and> P @ a @ D # rest < UpperBound (ID ns))"
    unfolding yields_def entry_def
    using IterateOnRange_namespace_eq [OF assms(1,2), of D
        "\<lparr>rng_Min = Some k, rng_Max = None, Exclusive = True\<rparr>" reverse]
      store_rows_visited [of P "db ns" D rows "P @ k @ [D, 0xFF]" "UpperBound (ID ns)"
        "\<lambda>a rest v. k < a \<and> P @ a @ D # rest < UpperBound (ID ns)" reverse,
        OF store in4 sel4]
    by (simp add: P_def)
  have 5: "(k @ D # rest, v)
             \<notin> set (map entry (filter (\<lambda>(a, rest, v). k < a \<and> P @ a @ D # rest < UpperBound (ID ns))
                                  rows))"
    if "rest = [] \<or> hd rest \<noteq> 0xFF" for rest v
  proof
    assume "(k @ D # rest, v)
             \<in> set (map entry (filter (\<lambda>(a, rest, v). k < a \<and> P @ a @ D # rest < UpperBound (ID ns))
                                  rows))"
    then obtain a' rest' where row: "(a', rest', v) \<in> set rows" and gt: "k < a'"
      and eq: "k @ D # rest = a' @ D # rest'"
      by (auto simp: entry_def)
    from gt below [OF row] have "\<not> a' @ D # rest' < k @ [D, 0xFF]" by simp
    with extension_less_bound [OF that, of k D] eq show False by simp
  qed
  from 1 2 3 4 5 show ?thesis by blast
qed

text \<open>
  The rows of the index scan test: an index on \<open>(a, b)\<close> with the rows \<open>(1, 1)\<close>,
  \<open>(1, MAX)\<close> and \<open>(2, 2)\<close>, the values encoded as a tag \<open>0x20\<close> and one byte, \<open>MAX\<close> as
  \<open>0xFF\<close>, the delimiter \<open>0x1F\<close>, the namespace prefix \<open>[9]\<close>; each key ends with the
  primary key of its row. The range with min and max \<open>[1]\<close> yields the two rows with
  \<open>a = 1\<close>; the range with the exclusive min \<open>[1]\<close>, in reverse, yields the row with \<open>a = 2\<close>.
\<close>

theorem IterateOnRange_partial_key_witness:
  "IterateOnRange 0x1F
     \<lparr>Namespace = Some \<lparr>ID = \<lparr>id_prefix = [9], UpperBound = [10]\<rparr>,
          db = [([9, 0x20, 1, 0x1F, 0x20, 1, 0x1F, 0x20, 1], [0]),
                ([9, 0x20, 1, 0x1F, 0x20, 0xFF, 0x1F, 0x20, 3], [0]),
                ([9, 0x20, 2, 0x1F, 0x20, 2, 0x1F, 0x20, 2], [0]),
                ([10, 0x20, 1, 0x1F, 0x20, 7], [0])]\<rparr>,
      TransientStore = None, Codec = \<lparr>Encode = Inr, Decode = Inr\<rparr>\<rparr>
     (Some \<lparr>rng_Min = Some [0x20, 1], rng_Max = Some [0x20, 1], Exclusive = False\<rparr>)
     False collect []
   = Ok [([0x20, 1, 0x1F, 0x20, 1, 0x1F, 0x20, 1], [0]),
         ([0x20, 1, 0x1F, 0x20, 0xFF, 0x1F, 0x20, 3], [0])]
   \<and> IterateOnRange 0x1F
     \<lparr>Namespace = Some \<lparr>ID = \<lparr>id_prefix = [9], UpperBound = [10]\<rparr>,
          db = [([9, 0x20, 1, 0x1F, 0x20, 1, 0x1F, 0x20, 1], [0]),
                ([9, 0x20, 1, 0x1F, 0x20, 0xFF, 0x1F, 0x20, 3], [0]),
                ([9, 0x20, 2, 0x1F, 0x20, 2, 0x1F, 0x20, 2], [0]),
                ([10, 0x20, 1, 0x1F, 0x20, 7], [0])]\<rparr>,
      TransientStore = None, Codec = \<lparr>Encode = Inr, Decode = Inr\<rparr>\<rparr>
     (Some \<lparr>rng_Min = Some [0x20, 1], rng_Max = None, Exclusive = True\<rparr>)
     True collect []
   = Ok [([0x20, 2, 0x1F, 0x20, 2, 0x1F, 0x20, 2], [0])]"
proof -
  let ?ns = "\<lparr>ID = \<lparr>id_prefix = [9], UpperBound = [10]\<rparr>,
          db = [([9, 0x20, 1, 0x1F, 0x20, 1, 0x1F, 0x20, 1], [0]),
                ([9, 0x20, 1, 0x1F, 0x20, 0xFF, 0x1F, 0x20, 3], [0]),
                ([9, 0x20, 2, 0x1F, 0x20, 2, 0x1F, 0x20, 2], [0]),
                ([10, 0x20, 1, 0x1F, 0x20, 7], [0::byte])]\<rparr>"
  let ?t = "\<lparr>Namespace = Some ?ns, TransientStore = None,
             Codec = \<lparr>Encode = Inr, Decode = Inr\<rparr>\<rparr> :: bytes Tree"
  let ?rows = "[([0x20, 1], [0x20, 1, 0x1F, 0x20, 1], [0]),
                ([0x20, 1], [0x20, 0xFF, 0x1F, 0x20, 3], [0]),
                ([0x20, 2], [0x20, 2, 0x1F, 0x20, 2], [0])] :: (bytes \<times> bytes \<times> bytes) list"
  have ns: "Namespace ?t = Some ?ns" and ts: "TransientStore ?t = None"
    by simp_all
  have ub: "UpperBound_ok ?ns"
    by (simp add: UpperBound_ok_def HasPrefix_def)
  have store: "filter (\<lambda>(sk, v). HasPrefix sk (id_prefix (ID ?ns))) (db ?ns)
               = map (\<lambda>(a, rest, v). (id_prefix (ID ?ns) @ a @ 0x1F # rest, v)) ?rows"
    by (simp add: HasPrefix_def)
  have cols: "\<forall>(a, rest, v) \<in> set ?rows.
           (rest = [] \<or> hd rest \<noteq> 0xFF)
           \<and> (a = [0x20, 1] \<or> (\<not> HasPrefix a [0x20, 1] \<and> \<not> HasPrefix [0x20, 1] a))"
    by (simp add: HasPrefix_def)
  note fwd = IterateOnRange_partial_key [OF ns ts ub store cols, where reverse = False]
  note bwd = IterateOnRange_partial_key [OF ns ts ub store cols, where reverse = True]
  from fwd [THEN conjunct1]
  have 1: "IterateOnRange 0x1F ?t
       (Some \<lparr>rng_Min = Some [0x20, 1], rng_Max = Some [0x20, 1], Exclusive = False\<rparr>)
       False collect []
     = Ok [([0x20, 1, 0x1F, 0x20, 1, 0x1F, 0x20, 1], [0]),
           ([0x20, 1, 0x1F, 0x20, 0xFF, 0x1F, 0x20, 3], [0])]"
    by simp
  from bwd [THEN conjunct2, THEN conjunct2, THEN conjunct2, THEN conjunct1]
  have 2: "IterateOnRange 0x1F ?t
       (Some \<lparr>rng_Min = Some [0x20, 1], rng_Max = None, Exclusive = True\<rparr>)
       True collect []
     = Ok [([0x20, 2, 0x1F, 0x20, 2, 0x1F, 0x20, 2], [0])]"
    by simp
  from 1 2 show ?thesis by (rule conjI)
qed

text \<open>
  The lower bound that the tree itself builds for an inclusive min is the key under the prefix,
  with no delimiter after it.
\<close>

lemma buildStartKeyInclusive_namespace:
  "Namespace t = Some ns \<Longrightarrow> buildStartKeyInclusive t k = id_prefix (ID ns) @ k"
  by (simp add: buildStartKeyInclusive_def buildKey_def BuildKey_def)

end
